theory Spec2Isabelle
  imports Main "HOL-Library.Extended_Nat" "HOL-Library.Multiset"
begin

section \<open>Shortest-Path Visualizer: the grid, the two searches and the replay\<close>

text \<open>
  A shallow embedding of \<^verbatim>\<open>src/components/ShortestPath.tsx\<close>.

  \<^item> A \<^verbatim>\<open>GridNode\<close> object is a record.  Its scores are JavaScript numbers that only
    ever hold \<^verbatim>\<open>Infinity\<close> or a small non-negative integer, so \<open>gScore\<close> and
    \<open>fScore\<close> are \<open>enat\<close> and \<open>hScore\<close> is \<open>nat\<close>.
  \<^item> The component mutates the node objects of the working copy \<^verbatim>\<open>newGrid\<close> in place
    and keeps references to them in \<^verbatim>\<open>unvisited\<close>, \<^verbatim>\<open>openSet\<close>, \<^verbatim>\<open>closedSet\<close>,
    \<^verbatim>\<open>visitedInOrder\<close> and in every \<^verbatim>\<open>parent\<close> field.  The working grid is therefore
    the store, and a reference to one of its nodes is the position \<open>(column, row)\<close> at
    which the node sits; reading through a reference is \<open>cell\<close>, writing is \<open>upd\<close>.
  \<^item> The fields \<^verbatim>\<open>x\<close> and \<^verbatim>\<open>y\<close> are called \<open>node_x\<close> and \<open>node_y\<close>, so that \<open>x\<close>
    and \<open>y\<close> stay available as variables.
  \<^item> \<^verbatim>\<open>Array.prototype.sort\<close> is stable (ECMAScript 2019), and a comparator result of
    \<^verbatim>\<open>NaN\<close> (here \<^verbatim>\<open>Infinity - Infinity\<close>) counts as \<open>+0\<close>; sorting with
    \<^verbatim>\<open>(a, b) => a.gScore - b.gScore\<close> is the stable \<open>sort_key\<close> on the \<open>enat\<close> key.
  \<^item> Indexing a grid outside its bounds throws in JavaScript.  Every grid the component
    builds has \<open>GRID_ROWS\<close> rows of \<open>GRID_COLS\<close> nodes and every reference it keeps
    lies inside (\<open>stateInv\<close>, which holds in every reachable state), so the properties
    below are stated for such states, where \<open>!\<close> and list update are in range.
  \<^item> Rendering, timers and toasts are not modelled; a run is described by what it
    returns: the error it reports, or the lists it found, the grids it passed to
    \<^verbatim>\<open>setGrid\<close> and the state it leaves.
\<close>

subsection \<open>Data model\<close>

type_synonym pos = "nat \<times> nat"

record GridNode =
  node_x :: nat
  node_y :: nat
  isWall :: bool
  isStart :: bool
  isEnd :: bool
  isVisited :: bool
  isPath :: bool
  gScore :: enat
  hScore :: nat
  fScore :: enat
  parent :: "pos option"

type_synonym Grid = "GridNode list list"

datatype Tool = ToolStart | ToolEnd | ToolWall

record AlgorithmStats =
  algorithm :: string
  nodesExplored :: nat
  pathLength :: nat

definition GRID_COLS :: nat where
  "GRID_COLS = 50"

definition GRID_ROWS :: nat where
  "GRID_ROWS = 30"

text \<open>
  The React state of the component.  \<open>startNode\<close> and \<open>endNode\<close> are references that
  the code only ever reads for their (immutable) \<^verbatim>\<open>x\<close> and \<^verbatim>\<open>y\<close>, or tests for
  \<^verbatim>\<open>null\<close>; they are kept as optional positions.
\<close>

record AppState =
  grid :: Grid
  selectedTool :: Tool
  startNode :: "pos option"
  endNode :: "pos option"
  isAnimating :: bool
  stats :: AlgorithmStats

text \<open>\<open>cell g (x, y)\<close> is \<^verbatim>\<open>g[y][x]\<close>; \<open>upd g (x, y) f\<close> assigns fields of that object.\<close>

definition cell :: "Grid \<Rightarrow> pos \<Rightarrow> GridNode" where
  "cell g p = g ! snd p ! fst p"

definition upd :: "Grid \<Rightarrow> pos \<Rightarrow> (GridNode \<Rightarrow> GridNode) \<Rightarrow> Grid" where
  "upd g p f = g[snd p := (g ! snd p)[fst p := f (g ! snd p ! fst p)]]"

text \<open>The references to all nodes of a grid, in the order of \<^verbatim>\<open>newGrid.flat()\<close>.\<close>

definition flat :: "Grid \<Rightarrow> pos list" where
  "flat g = concat (map (\<lambda>r. map (\<lambda>c. (c, r)) [0..<length (g ! r)]) [0..<length g])"

subsection \<open>Initial grid (the first \<^verbatim>\<open>useEffect\<close>)\<close>

definition initialNode :: "nat \<Rightarrow> nat \<Rightarrow> GridNode" where
  "initialNode c r =
     \<lparr> node_x = c, node_y = r, isWall = False,
       isStart = (c = 5 \<and> r = 15), isEnd = (c = 44 \<and> r = 15),
       isVisited = False, isPath = False,
       gScore = \<infinity>, hScore = 0, fScore = \<infinity>, parent = None \<rparr>"

definition initialGrid :: Grid where
  "initialGrid = map (\<lambda>r. map (\<lambda>c. initialNode c r) [0..<GRID_COLS]) [0..<GRID_ROWS]"

definition initialState :: AppState where
  "initialState =
     \<lparr> grid = initialGrid, selectedTool = ToolStart,
       startNode = Some (5, 15), endNode = Some (44, 15),
       isAnimating = False,
       stats = \<lparr> algorithm = ''---'', nodesExplored = 0, pathLength = 0 \<rparr> \<rparr>"

subsection \<open>Editing (\<^verbatim>\<open>handleCanvasClick\<close>, \<^verbatim>\<open>resetGrid\<close>, \<^verbatim>\<open>clearAll\<close>)\<close>

text \<open>
  \<open>handleCanvasClick st cx cy\<close> is the handler after the pixel position has been turned
  into the integer cell coordinates \<open>cx\<close>, \<open>cy\<close> by \<^verbatim>\<open>Math.floor\<close>.  The handler copies
  every node, edits the copy and installs it with \<^verbatim>\<open>setGrid\<close>.
\<close>

definition handleCanvasClick :: "AppState \<Rightarrow> int \<Rightarrow> int \<Rightarrow> AppState" where
  "handleCanvasClick st cx cy =
     (if isAnimating st then st
      else if cx < 0 \<or> cx \<ge> int GRID_COLS \<or> cy < 0 \<or> cy \<ge> int GRID_ROWS then st
      else
        let newGrid = map (map (\<lambda>node. node)) (grid st);
            clicked = (nat cx, nat cy)
        in case selectedTool st of
             ToolStart \<Rightarrow>
               let g1 = (case startNode st of
                           Some s \<Rightarrow> upd newGrid s (\<lambda>n. n\<lparr>isStart := False\<rparr>)
                         | None \<Rightarrow> newGrid);
                   g2 = upd g1 clicked (\<lambda>n. n\<lparr>isStart := True\<rparr>);
                   g3 = upd g2 clicked (\<lambda>n. n\<lparr>isWall := False\<rparr>)
               in st\<lparr>grid := g3, startNode := Some clicked\<rparr>
           | ToolEnd \<Rightarrow>
               let g1 = (case endNode st of
                           Some e \<Rightarrow> upd newGrid e (\<lambda>n. n\<lparr>isEnd := False\<rparr>)
                         | None \<Rightarrow> newGrid);
                   g2 = upd g1 clicked (\<lambda>n. n\<lparr>isEnd := True\<rparr>);
                   g3 = upd g2 clicked (\<lambda>n. n\<lparr>isWall := False\<rparr>)
               in st\<lparr>grid := g3, endNode := Some clicked\<rparr>
           | ToolWall \<Rightarrow>
               let g1 = (if \<not> isStart (cell newGrid clicked) \<and> \<not> isEnd (cell newGrid clicked)
                         then upd newGrid clicked (\<lambda>n. n\<lparr>isWall := \<not> isWall n\<rparr>)
                         else newGrid)
               in st\<lparr>grid := g1\<rparr>)"

text \<open>Choosing a tool (\<^verbatim>\<open>setSelectedTool\<close>).\<close>

definition withTool :: "Tool \<Rightarrow> AppState \<Rightarrow> AppState" where
  "withTool t st = st\<lparr>selectedTool := t\<rparr>"

definition resetGrid :: "AppState \<Rightarrow> AppState" where
  "resetGrid st =
     st\<lparr>grid := map (map (\<lambda>node. node\<lparr>isVisited := False, isPath := False,
                                        gScore := \<infinity>, hScore := 0, fScore := \<infinity>,
                                        parent := None\<rparr>)) (grid st),
        stats := \<lparr> algorithm = ''---'', nodesExplored = 0, pathLength = 0 \<rparr>\<rparr>"

definition clearAll :: "AppState \<Rightarrow> AppState" where
  "clearAll st =
     st\<lparr>grid := map (map (\<lambda>node. node\<lparr>isWall := False, isVisited := False, isPath := False,
                                        isStart := False, isEnd := False,
                                        gScore := \<infinity>, hScore := 0, fScore := \<infinity>,
                                        parent := None\<rparr>)) (grid st),
        startNode := None, endNode := None,
        stats := \<lparr> algorithm = ''---'', nodesExplored = 0, pathLength = 0 \<rparr>\<rparr>"

subsection \<open>Two example states\<close>

text \<open>
  Two states reached by editing the initial one, used as examples: the end moved onto
  the start cell; and the start moved into the corner \<open>(0, 0)\<close> with walls drawn on
  both neighbours of the corner.
\<close>

definition sameCellExample :: AppState where
  "sameCellExample = handleCanvasClick (withTool ToolEnd initialState) 5 15"

definition blockedExample :: AppState where
  "blockedExample =
     handleCanvasClick
       (handleCanvasClick
          (withTool ToolWall (handleCanvasClick (withTool ToolStart initialState) 0 0)) 1 0) 0 1"

subsection \<open>Heuristic, neighbours, path reconstruction\<close>

definition manhattanDistance :: "GridNode \<Rightarrow> GridNode \<Rightarrow> nat" where
  "manhattanDistance a b =
     nat (\<bar>int (node_x a) - int (node_x b)\<bar> + \<bar>int (node_y a) - int (node_y b)\<bar>)"

definition getNeighbors :: "GridNode \<Rightarrow> Grid \<Rightarrow> pos list" where
  "getNeighbors node gridData =
     (let x = node_x node; y = node_y node;
          neighbors =
            (if y > 0 then [(x, y - 1)] else []) @
            (if y < GRID_ROWS - 1 then [(x, y + 1)] else []) @
            (if x > 0 then [(x - 1, y)] else []) @
            (if x < GRID_COLS - 1 then [(x + 1, y)] else [])
      in filter (\<lambda>n. \<not> isWall (cell gridData n)) neighbors)"

text \<open>
  \<^verbatim>\<open>reconstructPath\<close> follows \<^verbatim>\<open>parent\<close> until it is \<^verbatim>\<open>null\<close>.  Nothing in the loop
  itself bounds it (a cycle of parents would keep it running), so it is a partial
  function: \<open>None\<close> means that the loop does not return.
\<close>

partial_function (option) reconstructLoop :: "Grid \<Rightarrow> pos option \<Rightarrow> pos list \<Rightarrow> pos list option" where
  "reconstructLoop g current path =
     (case current of
        None \<Rightarrow> Some path
      | Some c \<Rightarrow> reconstructLoop g (parent (cell g c)) (c # path))"

declare reconstructLoop.simps [code]

definition reconstructPath :: "Grid \<Rightarrow> pos \<Rightarrow> pos list option" where
  "reconstructPath g endRef = reconstructLoop g (Some endRef) []"

subsection \<open>The searches\<close>

text \<open>
  What a search loop leaves behind when it exits: the visited-order list in both
  cases and, when the end was reached, the path and the working grid handed to
  \<^verbatim>\<open>animateAlgorithm\<close>.
\<close>

datatype SearchResult =
    Found "pos list" "pos list" Grid
  | Exhausted "pos list"

definition relaxDijkstra :: "pos \<Rightarrow> Grid \<Rightarrow> pos \<Rightarrow> Grid" where
  "relaxDijkstra current g neighbor =
     (let tentativeGScore = gScore (cell g current) + 1
      in if tentativeGScore < gScore (cell g neighbor)
         then upd g neighbor (\<lambda>n. n\<lparr>gScore := tentativeGScore,
                                     fScore := tentativeGScore,
                                     parent := Some current\<rparr>)
         else g)"

function dijkstraLoop :: "Grid \<Rightarrow> pos list \<Rightarrow> pos list \<Rightarrow> SearchResult option" where
  "dijkstraLoop g unvisited visitedInOrder =
     (if length unvisited > 0 then
        let sorted = sort_key (\<lambda>n. gScore (cell g n)) unvisited;
            current = hd sorted;
            rest = tl sorted
        in if gScore (cell g current) = \<infinity> then Some (Exhausted visitedInOrder)
           else if isEnd (cell g current) then
             map_option (\<lambda>path. Found visitedInOrder path g) (reconstructPath g current)
           else
             dijkstraLoop
               (foldl (relaxDijkstra current) g (getNeighbors (cell g current) g))
               rest
               (visitedInOrder @ [current])
      else Some (Exhausted visitedInOrder))"
  by pat_completeness auto
termination
  by (relation "measure (\<lambda>(g, unvisited, visitedInOrder). length unvisited)") auto

text \<open>
  One pass of the inner \<^verbatim>\<open>for\<close> loop of A*, on the working grid and the open set.  The
  four assignments to the neighbour are made one after the other on the store, so that
  \<^verbatim>\<open>end\<close> is read as it is at that moment (it may be the neighbour itself).
\<close>

definition relaxAStar :: "pos \<Rightarrow> pos \<Rightarrow> pos set \<Rightarrow> Grid \<times> pos list \<Rightarrow> pos \<Rightarrow> Grid \<times> pos list" where
  "relaxAStar endRef current closedSet s neighbor =
     (let g = fst s; openSet = snd s in
      if neighbor \<in> closedSet then s
      else
        let tentativeGScore = gScore (cell g current) + 1;
            g1 = upd g neighbor (\<lambda>n. n\<lparr>parent := Some current\<rparr>);
            g2 = upd g1 neighbor (\<lambda>n. n\<lparr>gScore := tentativeGScore\<rparr>);
            g3 = upd g2 neighbor (\<lambda>n. n\<lparr>hScore := manhattanDistance n (cell g2 endRef)\<rparr>);
            g4 = upd g3 neighbor (\<lambda>n. n\<lparr>fScore := gScore n + enat (hScore n)\<rparr>)
        in if neighbor \<notin> set openSet then (g4, openSet @ [neighbor])
           else if tentativeGScore \<ge> gScore (cell g neighbor) then s
           else (g4, openSet))"

partial_function (option) aStarLoop ::
    "pos \<Rightarrow> Grid \<Rightarrow> pos list \<Rightarrow> pos set \<Rightarrow> pos list \<Rightarrow> SearchResult option" where
  "aStarLoop endRef g openSet closedSet visitedInOrder =
     (if length openSet > 0 then
        let sorted = sort_key (\<lambda>n. fScore (cell g n)) openSet;
            current = hd sorted;
            rest = tl sorted
        in if isEnd (cell g current) then
             map_option (\<lambda>path. Found visitedInOrder path g) (reconstructPath g current)
           else
             let closedSet' = insert current closedSet;
                 s = foldl (relaxAStar endRef current closedSet') (g, rest)
                       (getNeighbors (cell g current) g)
             in aStarLoop endRef (fst s) (snd s) closedSet' (visitedInOrder @ [current])
      else Some (Exhausted visitedInOrder))"

declare aStarLoop.simps [code]

subsection \<open>The replay (\<^verbatim>\<open>animateAlgorithm\<close>)\<close>

definition markVisited :: "Grid \<Rightarrow> pos \<Rightarrow> Grid" where
  "markVisited gridData r =
     (let node = cell gridData r
      in if \<not> isStart node \<and> \<not> isEnd node
         then upd gridData (node_x node, node_y node) (\<lambda>n. n\<lparr>isVisited := True\<rparr>)
         else gridData)"

definition markPath :: "Grid \<Rightarrow> pos \<Rightarrow> Grid" where
  "markPath gridData r =
     (let node = cell gridData r
      in if \<not> isStart node \<and> \<not> isEnd node
         then upd gridData (node_x node, node_y node) (\<lambda>n. n\<lparr>isPath := True\<rparr>)
         else gridData)"

text \<open>
  The grids passed to \<^verbatim>\<open>setGrid\<close> by one of the two \<^verbatim>\<open>for\<close> loops, in order: one per
  list element, each taken right after the element has been handled.
\<close>

fun frames :: "(Grid \<Rightarrow> pos \<Rightarrow> Grid) \<Rightarrow> pos list \<Rightarrow> Grid \<Rightarrow> Grid list" where
  "frames mark [] gridData = []"
| "frames mark (n # ns) gridData = mark gridData n # frames mark ns (mark gridData n)"

text \<open>
  A run of \<^verbatim>\<open>animateAlgorithm\<close>: every grid it emits, and the state it leaves (the last
  emitted grid is the live grid; the statistics are set after the second loop).
\<close>

definition animateAlgorithm ::
    "pos list \<Rightarrow> pos list \<Rightarrow> Grid \<Rightarrow> string \<Rightarrow> AppState \<Rightarrow> Grid list \<times> AppState" where
  "animateAlgorithm visited path gridData algorithmName st =
     (let fs1 = frames markVisited visited gridData;
          g1 = foldl markVisited gridData visited;
          fs2 = frames markPath path g1;
          emitted = fs1 @ fs2
      in (emitted,
          st\<lparr>grid := (if emitted = [] then grid st else last emitted),
             stats := \<lparr> algorithm = algorithmName,
                        nodesExplored = length visited,
                        pathLength = length path \<rparr>,
             isAnimating := False\<rparr>))"

subsection \<open>\<^verbatim>\<open>runDijkstra\<close> and \<^verbatim>\<open>runAStar\<close>\<close>

datatype RunError = MissingEndpoints | NoPathFound

text \<open>
  What a run does: it either fails (an error toast; the state it leaves is recorded),
  or it completes with the visited-order list and the path it handed to the replay,
  the grids the replay emitted, and the state it leaves.  A run that does not return
  is \<open>None\<close>.
\<close>

datatype RunOutcome =
    Failed RunError AppState
  | Completed "pos list" "pos list" "Grid list" AppState

text \<open>The grids a run emitted with \<^verbatim>\<open>setGrid\<close>, and the state it left.\<close>

fun emitted :: "RunOutcome \<Rightarrow> Grid list" where
  "emitted (Failed err st) = []"
| "emitted (Completed visited path fs st) = fs"

fun finalState :: "RunOutcome \<Rightarrow> AppState" where
  "finalState (Failed err st) = st"
| "finalState (Completed visited path fs st) = st"

definition finishRun :: "string \<Rightarrow> AppState \<Rightarrow> SearchResult \<Rightarrow> RunOutcome" where
  "finishRun algorithmName st r =
     (case r of
        Found visited path newGrid \<Rightarrow>
          (let a = animateAlgorithm visited path newGrid algorithmName (st\<lparr>isAnimating := True\<rparr>)
           in Completed visited path (fst a) (snd a))
      | Exhausted visited \<Rightarrow> Failed NoPathFound (st\<lparr>isAnimating := False\<rparr>))"

text \<open>
  The search part of \<^verbatim>\<open>runDijkstra\<close>: the working copy with fresh metadata, the start
  at cost 0, and the main loop over all cells.
\<close>

definition dijkstraSearch :: "Grid \<Rightarrow> pos \<Rightarrow> SearchResult option" where
  "dijkstraSearch liveGrid s =
     (let newGrid0 = map (map (\<lambda>node. node\<lparr>isVisited := False, isPath := False,
                                            gScore := \<infinity>, fScore := \<infinity>,
                                            parent := None\<rparr>)) liveGrid;
          newGrid = upd (upd newGrid0 s (\<lambda>n. n\<lparr>gScore := 0\<rparr>)) s (\<lambda>n. n\<lparr>fScore := 0\<rparr>);
          unvisited = flat newGrid
      in dijkstraLoop newGrid unvisited [])"

definition runDijkstra :: "AppState \<Rightarrow> RunOutcome option" where
  "runDijkstra st =
     (case (startNode st, endNode st) of
        (Some s, Some e) \<Rightarrow> map_option (finishRun ''Dijkstra'' st) (dijkstraSearch (grid st) s)
      | _ \<Rightarrow> Some (Failed MissingEndpoints st))"

text \<open>The search part of \<^verbatim>\<open>runAStar\<close>.\<close>

definition aStarSearch :: "Grid \<Rightarrow> pos \<Rightarrow> pos \<Rightarrow> SearchResult option" where
  "aStarSearch liveGrid s e =
     (let newGrid0 = map (map (\<lambda>node. node\<lparr>isVisited := False, isPath := False,
                                            gScore := \<infinity>, hScore := 0, fScore := \<infinity>,
                                            parent := None\<rparr>)) liveGrid;
          g1 = upd newGrid0 s (\<lambda>n. n\<lparr>gScore := 0\<rparr>);
          g2 = upd g1 s (\<lambda>n. n\<lparr>hScore := manhattanDistance n (cell g1 e)\<rparr>);
          newGrid = upd g2 s (\<lambda>n. n\<lparr>fScore := enat (hScore n)\<rparr>)
      in aStarLoop e newGrid [s] {} [])"

definition runAStar :: "AppState \<Rightarrow> RunOutcome option" where
  "runAStar st =
     (case (startNode st, endNode st) of
        (Some s, Some e) \<Rightarrow> map_option (finishRun ''A*'' st) (aStarSearch (grid st) s e)
      | _ \<Rightarrow> Some (Failed MissingEndpoints st))"

text \<open>The visited-order list a search loop ends with.\<close>

fun visitedOf :: "SearchResult \<Rightarrow> pos list" where
  "visitedOf (Found visited path g) = visited"
| "visitedOf (Exhausted visited) = visited"

subsection \<open>Predicates used to state the properties\<close>

definition inBounds :: "pos \<Rightarrow> bool" where
  "inBounds p = (fst p < GRID_COLS \<and> snd p < GRID_ROWS)"

text \<open>
  The shape every grid of the component has: \<open>GRID_ROWS\<close> rows of \<open>GRID_COLS\<close> nodes,
  each node carrying its own column and row.
\<close>

definition wfGrid :: "Grid \<Rightarrow> bool" where
  "wfGrid g =
     (length g = GRID_ROWS \<and>
      (\<forall>r \<in> {0..<GRID_ROWS}. length (g ! r) = GRID_COLS \<and>
         (\<forall>c \<in> {0..<GRID_COLS}. node_x (g ! r ! c) = c \<and> node_y (g ! r ! c) = r)))"

text \<open>
  The invariant of the component's state: the grid is well formed, the start and end
  flags sit exactly on the cells that \<open>startNode\<close> and \<open>endNode\<close> refer to, and a wall
  is neither start nor end.
\<close>

definition stateInv :: "AppState \<Rightarrow> bool" where
  "stateInv st =
     (wfGrid (grid st) \<and>
      (case startNode st of None \<Rightarrow> True | Some s \<Rightarrow> inBounds s) \<and>
      (case endNode st of None \<Rightarrow> True | Some e \<Rightarrow> inBounds e) \<and>
      (\<forall>p \<in> set (flat (grid st)).
         (isStart (cell (grid st) p) \<longleftrightarrow> startNode st = Some p) \<and>
         (isEnd (cell (grid st) p) \<longleftrightarrow> endNode st = Some p) \<and>
         (isWall (cell (grid st) p) \<longrightarrow>
            \<not> isStart (cell (grid st) p) \<and> \<not> isEnd (cell (grid st) p))))"

text \<open>No cell is a wall and at the same time the start or the end.\<close>

definition noWallOnEndpoints :: "Grid \<Rightarrow> bool" where
  "noWallOnEndpoints g =
     (\<forall>p \<in> set (flat g). \<not> (isWall (cell g p) \<and> (isStart (cell g p) \<or> isEnd (cell g p))))"

text \<open>
  A route over the grid: a non-empty list of cells in which each cell is followed by
  one of its neighbours, as \<open>getNeighbors\<close> computes them.
\<close>

fun validPath :: "Grid \<Rightarrow> pos list \<Rightarrow> bool" where
  "validPath g [] = False"
| "validPath g [p] = True"
| "validPath g (p # q # ps) = (q \<in> set (getNeighbors (cell g p) g) \<and> validPath g (q # ps))"

definition pathBetween :: "Grid \<Rightarrow> pos \<Rightarrow> pos \<Rightarrow> pos list \<Rightarrow> bool" where
  "pathBetween g s e ps = (ps \<noteq> [] \<and> hd ps = s \<and> last ps = e \<and> validPath g ps)"

definition adjacent4 :: "pos \<Rightarrow> pos \<Rightarrow> bool" where
  "adjacent4 p q =
     (\<bar>int (fst p) - int (fst q)\<bar> + \<bar>int (snd p) - int (snd q)\<bar> = 1)"

text \<open>
  The neighbours as the specification words them: of the four axis-aligned adjacent
  positions, taken in the order up, down, left, right, those inside the grid that are
  not walls.  Positions are integers here, so that a position outside the grid can be
  named.
\<close>

definition neighborsSpec :: "Grid \<Rightarrow> int \<times> int \<Rightarrow> (int \<times> int) list" where
  "neighborsSpec g p =
     filter (\<lambda>q. 0 \<le> fst q \<and> fst q < int GRID_COLS \<and> 0 \<le> snd q \<and> snd q < int GRID_ROWS \<and>
                  \<not> isWall (cell g (nat (fst q), nat (snd q))))
       [(fst p, snd p - 1), (fst p, snd p + 1), (fst p - 1, snd p), (fst p + 1, snd p)]"

subsection \<open>Invariants of the searches\<close>

text \<open>The Manhattan distance between two positions.\<close>

definition md :: "pos \<Rightarrow> pos \<Rightarrow> nat" where
  "md p q = nat (\<bar>int (fst p) - int (fst q)\<bar> + \<bar>int (snd p) - int (snd q)\<bar>)"

text \<open>
  The working grid \<open>g\<close> is well formed, has the walls, start and end of the live grid
  \<open>g0\<close>, and no visited or path flag set.
\<close>

definition sameLayout :: "Grid \<Rightarrow> Grid \<Rightarrow> bool" where
  "sameLayout g0 g =
     (wfGrid g0 \<and> wfGrid g \<and>
      (\<forall>p. inBounds p \<longrightarrow>
         isWall (cell g p) = isWall (cell g0 p) \<and>
         isStart (cell g p) = isStart (cell g0 p) \<and>
         isEnd (cell g p) = isEnd (cell g0 p) \<and>
         \<not> isVisited (cell g p) \<and> \<not> isPath (cell g p)))"

text \<open>
  A list that starts at some cell and follows \<open>parent\<close> from each cell to the next,
  ending at a cell without parent: the cells in the order in which
  \<open>reconstructLoop\<close> meets them.
\<close>

fun followsParents :: "Grid \<Rightarrow> pos list \<Rightarrow> bool" where
  "followsParents g [] = False"
| "followsParents g [p] = (parent (cell g p) = None)"
| "followsParents g (p # q # ps) = (parent (cell g p) = Some q \<and> followsParents g (q # ps))"

text \<open>
  The parent links form a tree rooted at the start \<open>s\<close>: every other cell with a finite
  cost has a parent among the finished cells \<open>D\<close>, is a neighbour of it, and costs one
  step more.
\<close>

definition treeInv :: "Grid \<Rightarrow> pos \<Rightarrow> Grid \<Rightarrow> pos set \<Rightarrow> bool" where
  "treeInv g0 s g D =
     (inBounds s \<and> gScore (cell g s) = 0 \<and> parent (cell g s) = None \<and>
      (\<forall>p. inBounds p \<and> p \<noteq> s \<and> gScore (cell g p) \<noteq> \<infinity> \<longrightarrow>
         (\<exists>q \<in> D. inBounds q \<and> parent (cell g p) = Some q \<and>
                   p \<in> set (getNeighbors (cell g0 q) g0) \<and>
                   gScore (cell g p) = gScore (cell g q) + 1)))"

text \<open>
  Every neighbour of a finished cell is finished or on the frontier \<open>F\<close>, and costs at
  most one step more than that cell.
\<close>

definition relaxedInv :: "Grid \<Rightarrow> Grid \<Rightarrow> pos set \<Rightarrow> pos set \<Rightarrow> bool" where
  "relaxedInv g0 g D F =
     (\<forall>q \<in> D. \<forall>r \<in> set (getNeighbors (cell g0 q) g0).
        r \<in> D \<union> F \<and> gScore (cell g r) \<le> gScore (cell g q) + 1)"

definition dijkstraInv :: "Grid \<Rightarrow> pos \<Rightarrow> Grid \<Rightarrow> pos list \<Rightarrow> pos list \<Rightarrow> bool" where
  "dijkstraInv g0 s g unvisited visited =
     (sameLayout g0 g \<and>
      distinct unvisited \<and> distinct visited \<and>
      set unvisited \<inter> set visited = {} \<and>
      set unvisited \<union> set visited = {p. inBounds p} \<and>
      (s \<in> set unvisited \<or> s \<in> set visited) \<and>
      treeInv g0 s g (set visited) \<and>
      relaxedInv g0 g (set visited) (set unvisited) \<and>
      (\<forall>q \<in> set visited. \<not> isEnd (cell g q) \<and> gScore (cell g q) \<noteq> \<infinity>) \<and>
      (\<forall>q \<in> set visited. \<forall>u \<in> set unvisited. gScore (cell g q) \<le> gScore (cell g u)))"

definition aStarInv ::
    "Grid \<Rightarrow> pos \<Rightarrow> pos \<Rightarrow> Grid \<Rightarrow> pos list \<Rightarrow> pos set \<Rightarrow> pos list \<Rightarrow> bool" where
  "aStarInv g0 s e g openSet closedSet visited =
     (sameLayout g0 g \<and> inBounds e \<and>
      distinct openSet \<and> distinct visited \<and> closedSet = set visited \<and>
      set openSet \<inter> closedSet = {} \<and>
      set openSet \<union> closedSet \<subseteq> {p. inBounds p} \<and>
      (s \<in> set openSet \<or> s \<in> closedSet) \<and>
      treeInv g0 s g closedSet \<and>
      relaxedInv g0 g closedSet (set openSet) \<and>
      (\<forall>p. inBounds p \<longrightarrow> (gScore (cell g p) \<noteq> \<infinity> \<longleftrightarrow> p \<in> set openSet \<union> closedSet)) \<and>
      (\<forall>p \<in> set openSet \<union> closedSet.
         fScore (cell g p) = gScore (cell g p) + enat (md p e)) \<and>
      (\<forall>q \<in> closedSet. \<not> isEnd (cell g q)) \<and>
      (\<forall>q \<in> closedSet. \<forall>u \<in> set openSet. fScore (cell g q) \<le> fScore (cell g u)))"

text \<open>
  What a finished search has established, for the live grid \<open>g0\<close>, the start \<open>s\<close> and
  the end \<open>e\<close>: a found path is a route from \<open>s\<close> to \<open>e\<close> that follows the parent links of
  the working grid and is no longer than any other route; a search ends without a path
  only if there is no route.
\<close>

definition searchPost :: "Grid \<Rightarrow> pos \<Rightarrow> pos \<Rightarrow> SearchResult \<Rightarrow> bool" where
  "searchPost g0 s e r =
     (case r of
        Found visited path g \<Rightarrow>
          sameLayout g0 g \<and> pathBetween g0 s e path \<and> followsParents g (rev path) \<and>
          (\<forall>ps. pathBetween g0 s e ps \<longrightarrow> length path \<le> length ps) \<and>
          distinct visited \<and> (\<forall>q \<in> set visited. inBounds q \<and> q \<noteq> e)
      | Exhausted visited \<Rightarrow>
          (\<forall>ps. \<not> pathBetween g0 s e ps) \<and>
          distinct visited \<and> (\<forall>q \<in> set visited. inBounds q \<and> q \<noteq> e))"

text \<open>The length of the found path, if any: the bound below which routes count as short.\<close>

fun pathLimit :: "SearchResult \<Rightarrow> nat option" where
  "pathLimit (Found visited path g) = Some (length path)"
| "pathLimit (Exhausted visited) = None"

definition shortRoute :: "Grid \<Rightarrow> pos \<Rightarrow> SearchResult \<Rightarrow> pos \<Rightarrow> bool" where
  "shortRoute g0 s r p =
     (\<exists>ps. pathBetween g0 s p ps \<and>
           (case pathLimit r of None \<Rightarrow> True | Some n \<Rightarrow> length ps < n))"

subsection \<open>The states the component can be in\<close>

text \<open>
  The states reached from the initial one by the operations of the component, each
  taken as a whole (a run from its start to the state it leaves).
\<close>

inductive reachable :: "AppState \<Rightarrow> bool" where
  initial: "reachable initialState"
| tool: "reachable st \<Longrightarrow> reachable (withTool t st)"
| click: "reachable st \<Longrightarrow> reachable (handleCanvasClick st cx cy)"
| reset: "reachable st \<Longrightarrow> reachable (resetGrid st)"
| clear: "reachable st \<Longrightarrow> reachable (clearAll st)"
| dijkstra: "reachable st \<Longrightarrow> runDijkstra st = Some out \<Longrightarrow> reachable (finalState out)"
| aStar: "reachable st \<Longrightarrow> runAStar st = Some out \<Longrightarrow> reachable (finalState out)"

section \<open>Properties of the model\<close>

subsection \<open>Grids as stores\<close>

lemma GRID_pos: "0 < GRID_COLS" "0 < GRID_ROWS"
  by (simp_all add: GRID_COLS_def GRID_ROWS_def)

lemma wfGrid_length: "wfGrid g \<Longrightarrow> length g = GRID_ROWS"
  by (simp add: wfGrid_def)

lemma wfGrid_row: "wfGrid g \<Longrightarrow> r < GRID_ROWS \<Longrightarrow> length (g ! r) = GRID_COLS"
  by (simp add: wfGrid_def)

lemma wfGrid_coords:
  "wfGrid g \<Longrightarrow> inBounds p \<Longrightarrow> node_x (cell g p) = fst p \<and> node_y (cell g p) = snd p"
  by (simp add: wfGrid_def inBounds_def cell_def)

lemma cell_upd:
  assumes "wfGrid g" "inBounds p"
  shows "cell (upd g p f) q = (if q = p then f (cell g p) else cell g q)"
proof (cases "snd q = snd p")
  case True
  then show ?thesis
    using assms
    by (cases "fst q = fst p")
       (auto simp: cell_def upd_def inBounds_def wfGrid_length wfGrid_row prod_eq_iff)
next
  case False
  then show ?thesis by (auto simp: cell_def upd_def)
qed

lemma wfGrid_upd:
  assumes "wfGrid g" "inBounds p"
    and "node_x (f (cell g p)) = node_x (cell g p)" "node_y (f (cell g p)) = node_y (cell g p)"
  shows "wfGrid (upd g p f)"
proof -
  have len: "length (upd g p f) = GRID_ROWS" using assms(1) by (simp add: upd_def wfGrid_def)
  have row: "length (upd g p f ! r) = GRID_COLS" if "r < GRID_ROWS" for r
    using assms(1) that by (cases "r = snd p") (auto simp: upd_def wfGrid_def)
  have co: "node_x (upd g p f ! r ! c) = c \<and> node_y (upd g p f ! r ! c) = r"
    if r: "r < GRID_ROWS" and c: "c < GRID_COLS" for r c
  proof -
    have ib: "inBounds (c, r)" using r c by (simp add: inBounds_def)
    have "upd g p f ! r ! c = cell (upd g p f) (c, r)" by (simp add: cell_def)
    also have "\<dots> = (if (c, r) = p then f (cell g p) else cell g (c, r))"
      by (rule cell_upd[OF assms(1,2)])
    finally have eq: "upd g p f ! r ! c = (if (c, r) = p then f (cell g p) else cell g (c, r))" .
    show ?thesis
      using wfGrid_coords[OF assms(1) ib] wfGrid_coords[OF assms(1,2)] assms(3,4)
      by (auto simp: eq)
  qed
  show ?thesis unfolding wfGrid_def using len row co by auto
qed

lemma cell_map:
  "wfGrid g \<Longrightarrow> inBounds p \<Longrightarrow> cell (map (map f) g) p = f (cell g p)"
  by (simp add: cell_def inBounds_def wfGrid_def)

lemma wfGrid_map:
  assumes "wfGrid g" "\<And>n. node_x (f n) = node_x n" "\<And>n. node_y (f n) = node_y n"
  shows "wfGrid (map (map f) g)"
  using assms by (simp add: wfGrid_def)

lemma set_flat: "wfGrid g \<Longrightarrow> set (flat g) = {p. inBounds p}"
  by (auto simp: flat_def wfGrid_def inBounds_def)

lemma flat_wf:
  "wfGrid g \<Longrightarrow> flat g = concat (map (\<lambda>r. map (\<lambda>c. (c, r)) [0..<GRID_COLS]) [0..<GRID_ROWS])"
  unfolding flat_def
  by (rule arg_cong[where f = concat]) (auto simp: wfGrid_def)

lemma distinct_flat: "wfGrid g \<Longrightarrow> distinct (flat g)"
  unfolding flat_wf
  by (rule distinct_concat) (use GRID_pos in \<open>auto simp: distinct_map inj_on_def\<close>)

lemma flat_map: "flat (map (map f) g) = flat g"
  unfolding flat_def
  by (rule arg_cong[where f = concat]) auto

subsection \<open>Neighbours\<close>

lemma set_getNeighbors:
  "set (getNeighbors n g) =
     {q. \<not> isWall (cell g q) \<and>
         ((0 < node_y n \<and> q = (node_x n, node_y n - 1)) \<or>
          (node_y n < GRID_ROWS - 1 \<and> q = (node_x n, node_y n + 1)) \<or>
          (0 < node_x n \<and> q = (node_x n - 1, node_y n)) \<or>
          (node_x n < GRID_COLS - 1 \<and> q = (node_x n + 1, node_y n)))}"
  unfolding getNeighbors_def Let_def set_filter set_append
  by (rule Collect_cong) (simp split: if_splits, blast)

lemma abs_sum_one:
  fixes a b :: int
  shows "\<bar>a\<bar> + \<bar>b\<bar> = 1 \<longleftrightarrow>
           (a = 0 \<and> b = 1) \<or> (a = 0 \<and> b = -1) \<or> (a = 1 \<and> b = 0) \<or> (a = -1 \<and> b = 0)"
  by linarith

lemma adjacent4_iff:
  "adjacent4 (px, py) (qx, qy) \<longleftrightarrow>
     (qx = px \<and> py = qy + 1) \<or> (qx = px \<and> qy = py + 1) \<or>
     (px = qx + 1 \<and> qy = py) \<or> (qx = px + 1 \<and> qy = py)"
  unfolding adjacent4_def fst_conv snd_conv abs_sum_one
  by linarith

lemma getNeighbors_iff:
  assumes "wfGrid g" "inBounds p"
  shows "q \<in> set (getNeighbors (cell g p) g) \<longleftrightarrow>
           inBounds q \<and> \<not> isWall (cell g q) \<and> adjacent4 p q"
proof -
  obtain px py where p: "p = (px, py)" by (cases p)
  obtain qx qy where q: "q = (qx, qy)" by (cases q)
  have xy: "node_x (cell g p) = px" "node_y (cell g p) = py"
    using wfGrid_coords[OF assms] p by simp_all
  have b: "px < GRID_COLS" "py < GRID_ROWS" using assms(2) p by (simp_all add: inBounds_def)
  have "((0 < py \<and> q = (px, py - 1)) \<or>
          (py < GRID_ROWS - 1 \<and> q = (px, py + 1)) \<or>
          (0 < px \<and> q = (px - 1, py)) \<or>
          (px < GRID_COLS - 1 \<and> q = (px + 1, py))) \<longleftrightarrow> (inBounds q \<and> adjacent4 p q)"
    unfolding p q adjacent4_iff inBounds_def fst_conv snd_conv prod.inject
  proof (intro iffI; elim disjE conjE)
    assume "0 < py" "qx = px" "qy = py - 1"
    then show "(qx < GRID_COLS \<and> qy < GRID_ROWS) \<and>
      (qx = px \<and> py = qy + 1 \<or> qx = px \<and> qy = py + 1 \<or> px = qx + 1 \<and> qy = py \<or> qx = px + 1 \<and> qy = py)"
      using b by simp
  next
    assume "py < GRID_ROWS - 1" "qx = px" "qy = py + 1"
    then show "(qx < GRID_COLS \<and> qy < GRID_ROWS) \<and>
      (qx = px \<and> py = qy + 1 \<or> qx = px \<and> qy = py + 1 \<or> px = qx + 1 \<and> qy = py \<or> qx = px + 1 \<and> qy = py)"
      using b by simp
  next
    assume "0 < px" "qx = px - 1" "qy = py"
    then show "(qx < GRID_COLS \<and> qy < GRID_ROWS) \<and>
      (qx = px \<and> py = qy + 1 \<or> qx = px \<and> qy = py + 1 \<or> px = qx + 1 \<and> qy = py \<or> qx = px + 1 \<and> qy = py)"
      using b by simp
  next
    assume "px < GRID_COLS - 1" "qx = px + 1" "qy = py"
    then show "(qx < GRID_COLS \<and> qy < GRID_ROWS) \<and>
      (qx = px \<and> py = qy + 1 \<or> qx = px \<and> qy = py + 1 \<or> px = qx + 1 \<and> qy = py \<or> qx = px + 1 \<and> qy = py)"
      using b by simp
  next
    assume "qx < GRID_COLS" "qy < GRID_ROWS" "qx = px" "py = qy + 1"
    then show "0 < py \<and> qx = px \<and> qy = py - 1 \<or>
      py < GRID_ROWS - 1 \<and> qx = px \<and> qy = py + 1 \<or>
      0 < px \<and> qx = px - 1 \<and> qy = py \<or> px < GRID_COLS - 1 \<and> qx = px + 1 \<and> qy = py"
      by (simp add: less_diff_conv)
  next
    assume "qx < GRID_COLS" "qy < GRID_ROWS" "qx = px" "qy = py + 1"
    then show "0 < py \<and> qx = px \<and> qy = py - 1 \<or>
      py < GRID_ROWS - 1 \<and> qx = px \<and> qy = py + 1 \<or>
      0 < px \<and> qx = px - 1 \<and> qy = py \<or> px < GRID_COLS - 1 \<and> qx = px + 1 \<and> qy = py"
      by (simp add: less_diff_conv)
  next
    assume "qx < GRID_COLS" "qy < GRID_ROWS" "px = qx + 1" "qy = py"
    then show "0 < py \<and> qx = px \<and> qy = py - 1 \<or>
      py < GRID_ROWS - 1 \<and> qx = px \<and> qy = py + 1 \<or>
      0 < px \<and> qx = px - 1 \<and> qy = py \<or> px < GRID_COLS - 1 \<and> qx = px + 1 \<and> qy = py"
      by (simp add: less_diff_conv)
  next
    assume "qx < GRID_COLS" "qy < GRID_ROWS" "qx = px + 1" "qy = py"
    then show "0 < py \<and> qx = px \<and> qy = py - 1 \<or>
      py < GRID_ROWS - 1 \<and> qx = px \<and> qy = py + 1 \<or>
      0 < px \<and> qx = px - 1 \<and> qy = py \<or> px < GRID_COLS - 1 \<and> qx = px + 1 \<and> qy = py"
      by (simp add: less_diff_conv)
  qed
  then show ?thesis
    unfolding set_getNeighbors xy mem_Collect_eq by blast
qed

lemma getNeighbors_length: "length (getNeighbors n g) \<le> 4"
proof -
  have "length (getNeighbors n g) \<le> length
           ((if node_y n > 0 then [(node_x n, node_y n - 1)] else []) @
            (if node_y n < GRID_ROWS - 1 then [(node_x n, node_y n + 1)] else []) @
            (if node_x n > 0 then [(node_x n - 1, node_y n)] else []) @
            (if node_x n < GRID_COLS - 1 then [(node_x n + 1, node_y n)] else []))"
    unfolding getNeighbors_def Let_def by (rule length_filter_le)
  also have "\<dots> \<le> 4" by simp
  finally show ?thesis .
qed

lemma getNeighbors_distinct: "distinct (getNeighbors n g)"
  unfolding getNeighbors_def Let_def
  by (rule distinct_filter) simp

lemma neighbor_candidate:
  fixes x y :: nat and a b :: int
  assumes "c \<longleftrightarrow> (0 \<le> a \<and> a < int GRID_COLS \<and> 0 \<le> b \<and> b < int GRID_ROWS)"
    and "c \<Longrightarrow> a = int x \<and> b = int y"
  shows "map (\<lambda>q. (int (fst q), int (snd q)))
           (filter (\<lambda>n. \<not> isWall (cell g n)) (if c then [(x, y)] else []))
         = filter (\<lambda>q. 0 \<le> fst q \<and> fst q < int GRID_COLS \<and> 0 \<le> snd q \<and> snd q < int GRID_ROWS \<and>
                  \<not> isWall (cell g (nat (fst q), nat (snd q)))) [(a, b)]"
proof (cases c)
  case True
  with assms(2) have ab: "a = int x" "b = int y" by simp_all
  from True assms(1) have "0 \<le> a \<and> a < int GRID_COLS \<and> 0 \<le> b \<and> b < int GRID_ROWS" by simp
  then show ?thesis using True by (simp add: ab)
next
  case False
  with assms(1) have "\<not> (0 \<le> a \<and> a < int GRID_COLS \<and> 0 \<le> b \<and> b < int GRID_ROWS)" by simp
  then show ?thesis using False by auto
qed

lemma getNeighbors_eq_spec:
  assumes "node_x n < GRID_COLS" "node_y n < GRID_ROWS"
  shows "map (\<lambda>q. (int (fst q), int (snd q))) (getNeighbors n g)
           = neighborsSpec g (int (node_x n), int (node_y n))"
proof -
  let ?P = "\<lambda>q. 0 \<le> fst q \<and> fst q < int GRID_COLS \<and> 0 \<le> snd q \<and> snd q < int GRID_ROWS \<and>
                  \<not> isWall (cell g (nat (fst q), nat (snd q)))"
  let ?x = "node_x n" and ?y = "node_y n"
  have split4: "filter ?P [p1, p2, p3, p4] = filter ?P [p1] @ filter ?P [p2] @ filter ?P [p3] @ filter ?P [p4]"
    for p1 p2 p3 p4
    by simp
  have up: "map (\<lambda>q. (int (fst q), int (snd q)))
           (filter (\<lambda>n. \<not> isWall (cell g n)) (if 0 < ?y then [(?x, ?y - 1)] else []))
           = filter ?P [(int ?x, int ?y - 1)]"
    by (rule neighbor_candidate) (use assms in \<open>auto simp: of_nat_diff\<close>)
  have down: "map (\<lambda>q. (int (fst q), int (snd q)))
           (filter (\<lambda>n. \<not> isWall (cell g n)) (if ?y < GRID_ROWS - 1 then [(?x, ?y + 1)] else []))
           = filter ?P [(int ?x, int ?y + 1)]"
    by (rule neighbor_candidate) (use assms in \<open>auto simp: less_diff_conv\<close>)
  have left: "map (\<lambda>q. (int (fst q), int (snd q)))
           (filter (\<lambda>n. \<not> isWall (cell g n)) (if 0 < ?x then [(?x - 1, ?y)] else []))
           = filter ?P [(int ?x - 1, int ?y)]"
    by (rule neighbor_candidate) (use assms in \<open>auto simp: of_nat_diff\<close>)
  have right: "map (\<lambda>q. (int (fst q), int (snd q)))
           (filter (\<lambda>n. \<not> isWall (cell g n)) (if ?x < GRID_COLS - 1 then [(?x + 1, ?y)] else []))
           = filter ?P [(int ?x + 1, int ?y)]"
    by (rule neighbor_candidate) (use assms in \<open>auto simp: less_diff_conv\<close>)
  show ?thesis
    unfolding getNeighbors_def neighborsSpec_def Let_def fst_conv snd_conv split4
      filter_append map_append up down left right ..
qed

subsection \<open>The head of a sorted list\<close>

lemma sort_key_hd_min:
  assumes "xs \<noteq> []"
  shows "hd (sort_key k xs) \<in> set xs"
    and "\<forall>y \<in> set xs. k (hd (sort_key k xs)) \<le> k y"
proof -
  obtain a as where ys: "sort_key k xs = a # as"
    using assms by (cases "sort_key k xs") (auto dest: arg_cong[where f = length])
  have "set (a # as) = set xs" unfolding ys[symmetric] by simp
  then show "hd (sort_key k xs) \<in> set xs" by (auto simp: ys)
  have "sorted (map k (a # as))" unfolding ys[symmetric] by simp
  then have "\<forall>y \<in> set (a # as). k a \<le> k y" by auto
  then show "\<forall>y \<in> set xs. k (hd (sort_key k xs)) \<le> k y"
    unfolding \<open>set (a # as) = set xs\<close> by (simp add: ys)
qed

lemma sort_key_hd_tl:
  assumes "xs \<noteq> []"
  shows "mset (tl (sort_key k xs)) = mset xs - {#hd (sort_key k xs)#}"
proof -
  obtain a as where ys: "sort_key k xs = a # as"
    using assms by (cases "sort_key k xs") (auto dest: arg_cong[where f = length])
  have "mset (a # as) = mset xs" unfolding ys[symmetric] by simp
  then show ?thesis by (simp add: ys flip: \<open>mset (a # as) = mset xs\<close>)
qed

lemma sort_key_hd_unique:
  assumes "x \<in> set xs" "\<forall>y \<in> set xs. y \<noteq> x \<longrightarrow> k x < k y"
  shows "hd (sort_key k xs) = x"
proof (rule ccontr)
  assume ne: "hd (sort_key k xs) \<noteq> x"
  have nonempty: "xs \<noteq> []" using assms(1) by auto
  from sort_key_hd_min[OF nonempty, of k]
  have "hd (sort_key k xs) \<in> set xs" "k (hd (sort_key k xs)) \<le> k x"
    using assms(1) by auto
  with assms(2) ne show False by force
qed

subsection \<open>The state invariant and the edit operations\<close>

lemma stateInv_iff:
  "stateInv st \<longleftrightarrow>
     wfGrid (grid st) \<and>
     (\<forall>s. startNode st = Some s \<longrightarrow> inBounds s) \<and>
     (\<forall>e. endNode st = Some e \<longrightarrow> inBounds e) \<and>
     (\<forall>p. inBounds p \<longrightarrow>
         (isStart (cell (grid st) p) \<longleftrightarrow> startNode st = Some p) \<and>
         (isEnd (cell (grid st) p) \<longleftrightarrow> endNode st = Some p) \<and>
         (isWall (cell (grid st) p) \<longrightarrow>
            \<not> isStart (cell (grid st) p) \<and> \<not> isEnd (cell (grid st) p)))"
proof (cases "wfGrid (grid st)")
  case True
  show ?thesis
    unfolding stateInv_def set_flat[OF True] mem_Collect_eq
    by (simp split: option.splits)
next
  case False
  then show ?thesis by (simp add: stateInv_def)
qed

lemma wfGrid_initialGrid: "wfGrid initialGrid"
  by (simp add: wfGrid_def initialGrid_def initialNode_def)

lemma cell_initialGrid: "inBounds p \<Longrightarrow> cell initialGrid p = initialNode (fst p) (snd p)"
  by (simp add: cell_def initialGrid_def inBounds_def)

lemma stateInv_initialState: "stateInv initialState"
  unfolding stateInv_iff
  by (auto simp: initialState_def wfGrid_initialGrid cell_initialGrid initialNode_def
      inBounds_def GRID_COLS_def GRID_ROWS_def)

lemma map_map_ident: "map (map (\<lambda>node. node)) g = g"
  by (simp add: map_idI)

lemma stateInv_resetGrid:
  assumes "stateInv st"
  shows "stateInv (resetGrid st)"
proof -
  let ?f = "\<lambda>node. node\<lparr>isVisited := False, isPath := False, gScore := \<infinity>, hScore := 0,
                          fScore := \<infinity>, parent := None\<rparr>"
  have wf: "wfGrid (grid st)" using assms by (simp add: stateInv_iff)
  have wf': "wfGrid (map (map ?f) (grid st))" by (rule wfGrid_map[OF wf]) simp_all
  show ?thesis
    using assms wf' unfolding stateInv_iff
    by (auto simp add: resetGrid_def cell_map[OF wf])
qed

lemma stateInv_clearAll:
  assumes "wfGrid (grid st)"
  shows "stateInv (clearAll st)"
proof -
  let ?f = "\<lambda>node. node\<lparr>isWall := False, isVisited := False, isPath := False,
                          isStart := False, isEnd := False,
                          gScore := \<infinity>, hScore := 0, fScore := \<infinity>, parent := None\<rparr>"
  have wf': "wfGrid (map (map ?f) (grid st))" by (rule wfGrid_map[OF assms]) simp_all
  show ?thesis
    using wf' unfolding stateInv_iff
    by (simp add: clearAll_def cell_map[OF assms])
qed

lemma inBounds_click:
  assumes "\<not> (cx < 0 \<or> cx \<ge> int GRID_COLS \<or> cy < 0 \<or> cy \<ge> int GRID_ROWS)"
  shows "inBounds (nat cx, nat cy)"
  using assms unfolding inBounds_def fst_conv snd_conv by linarith

lemma click_start:
  assumes inv: "stateInv st" and c: "inBounds c"
  defines "g1 \<equiv> (case startNode st of
                    Some s \<Rightarrow> upd (grid st) s (\<lambda>n. n\<lparr>isStart := False\<rparr>)
                  | None \<Rightarrow> grid st)"
  defines "g3 \<equiv> upd (upd g1 c (\<lambda>n. n\<lparr>isStart := True\<rparr>)) c (\<lambda>n. n\<lparr>isWall := False\<rparr>)"
  shows "stateInv (st\<lparr>grid := g3, startNode := Some c\<rparr>)"
    and "\<not> isWall (cell g3 c)" and "isStart (cell g3 c)"
proof -
  have wf: "wfGrid (grid st)" using inv by (simp add: stateInv_iff)
  have sb: "startNode st = Some s \<Longrightarrow> inBounds s" for s using inv by (simp add: stateInv_iff)
  have wf1: "wfGrid g1"
    unfolding g1_def using wf sb by (auto split: option.splits intro!: wfGrid_upd)
  have c1: "cell g1 q = (if startNode st = Some q then (cell (grid st) q)\<lparr>isStart := False\<rparr>
                         else cell (grid st) q)" for q
    unfolding g1_def using wf sb by (auto split: option.splits simp: cell_upd)
  have wf2: "wfGrid (upd g1 c (\<lambda>n. n\<lparr>isStart := True\<rparr>))"
    by (rule wfGrid_upd[OF wf1 c]) simp_all
  have wf3: "wfGrid g3" unfolding g3_def by (rule wfGrid_upd[OF wf2 c]) simp_all
  have c3: "cell g3 q = (if q = c then (cell g1 c)\<lparr>isStart := True, isWall := False\<rparr>
                         else cell g1 q)" for q
    unfolding g3_def by (simp add: cell_upd[OF wf2 c] cell_upd[OF wf1 c])
  show "stateInv (st\<lparr>grid := g3, startNode := Some c\<rparr>)"
    unfolding stateInv_iff using inv[unfolded stateInv_iff] wf3 c
    by (auto simp: c3 c1; blast)
  show "\<not> isWall (cell g3 c)" "isStart (cell g3 c)" by (simp_all add: c3)
qed

lemma click_end:
  assumes inv: "stateInv st" and c: "inBounds c"
  defines "g1 \<equiv> (case endNode st of
                    Some e \<Rightarrow> upd (grid st) e (\<lambda>n. n\<lparr>isEnd := False\<rparr>)
                  | None \<Rightarrow> grid st)"
  defines "g3 \<equiv> upd (upd g1 c (\<lambda>n. n\<lparr>isEnd := True\<rparr>)) c (\<lambda>n. n\<lparr>isWall := False\<rparr>)"
  shows "stateInv (st\<lparr>grid := g3, endNode := Some c\<rparr>)"
    and "\<not> isWall (cell g3 c)" and "isEnd (cell g3 c)"
proof -
  have wf: "wfGrid (grid st)" using inv by (simp add: stateInv_iff)
  have sb: "endNode st = Some s \<Longrightarrow> inBounds s" for s using inv by (simp add: stateInv_iff)
  have wf1: "wfGrid g1"
    unfolding g1_def using wf sb by (auto split: option.splits intro!: wfGrid_upd)
  have c1: "cell g1 q = (if endNode st = Some q then (cell (grid st) q)\<lparr>isEnd := False\<rparr>
                         else cell (grid st) q)" for q
    unfolding g1_def using wf sb by (auto split: option.splits simp: cell_upd)
  have wf2: "wfGrid (upd g1 c (\<lambda>n. n\<lparr>isEnd := True\<rparr>))"
    by (rule wfGrid_upd[OF wf1 c]) simp_all
  have wf3: "wfGrid g3" unfolding g3_def by (rule wfGrid_upd[OF wf2 c]) simp_all
  have c3: "cell g3 q = (if q = c then (cell g1 c)\<lparr>isEnd := True, isWall := False\<rparr>
                         else cell g1 q)" for q
    unfolding g3_def by (simp add: cell_upd[OF wf2 c] cell_upd[OF wf1 c])
  show "stateInv (st\<lparr>grid := g3, endNode := Some c\<rparr>)"
    unfolding stateInv_iff using inv[unfolded stateInv_iff] wf3 c
    by (auto simp: c3 c1; blast)
  show "\<not> isWall (cell g3 c)" "isEnd (cell g3 c)" by (simp_all add: c3)
qed

lemma click_wall:
  assumes inv: "stateInv st" and c: "inBounds c"
  defines "g1 \<equiv> (if \<not> isStart (cell (grid st) c) \<and> \<not> isEnd (cell (grid st) c)
                  then upd (grid st) c (\<lambda>n. n\<lparr>isWall := \<not> isWall n\<rparr>)
                  else grid st)"
  shows "stateInv (st\<lparr>grid := g1\<rparr>)"
    and "startNode st = Some c \<or> endNode st = Some c \<Longrightarrow> g1 = grid st"
proof -
  have wf: "wfGrid (grid st)" using inv by (simp add: stateInv_iff)
  have wf1: "wfGrid g1" unfolding g1_def using wf c by (auto intro!: wfGrid_upd)
  have c1: "cell g1 q = (if q = c \<and> \<not> isStart (cell (grid st) c) \<and> \<not> isEnd (cell (grid st) c)
                         then (cell (grid st) c)\<lparr>isWall := \<not> isWall (cell (grid st) c)\<rparr>
                         else cell (grid st) q)" for q
    unfolding g1_def using wf c by (auto simp: cell_upd)
  show "stateInv (st\<lparr>grid := g1\<rparr>)"
    unfolding stateInv_iff using inv[unfolded stateInv_iff] wf1
    by (auto simp: c1; blast)
  assume "startNode st = Some c \<or> endNode st = Some c"
  then have "isStart (cell (grid st) c) \<or> isEnd (cell (grid st) c)"
    using inv[unfolded stateInv_iff] c by blast
  then show "g1 = grid st"
    unfolding g1_def by auto
qed

lemma stateInv_handleCanvasClick:
  assumes "stateInv st"
  shows "stateInv (handleCanvasClick st cx cy)"
proof (cases "isAnimating st \<or> cx < 0 \<or> cx \<ge> int GRID_COLS \<or> cy < 0 \<or> cy \<ge> int GRID_ROWS")
  case True
  then show ?thesis using assms by (auto simp: handleCanvasClick_def)
next
  case False
  then have c: "inBounds (nat cx, nat cy)" by (simp add: inBounds_click)
  show ?thesis
  proof (cases "selectedTool st")
    case ToolStart
    then show ?thesis
      using False click_start(1)[OF assms c]
      by (simp add: handleCanvasClick_def map_map_ident Let_def)
  next
    case ToolEnd
    then show ?thesis
      using False click_end(1)[OF assms c]
      by (simp add: handleCanvasClick_def map_map_ident Let_def)
  next
    case ToolWall
    then show ?thesis
      using False click_wall(1)[OF assms c]
      by (simp add: handleCanvasClick_def map_map_ident Let_def)
  qed
qed

subsection \<open>Manhattan distance, routes and the frontier argument\<close>

lemma md_self [simp]: "md p p = 0"
  by (simp add: md_def)

lemma md_adjacent:
  assumes "adjacent4 p q"
  shows "md p e \<le> md q e + 1" and "md q e \<le> md p e + 1"
  using assms unfolding md_def adjacent4_def by linarith+

lemma adjacent4_md: "adjacent4 p q \<longleftrightarrow> md p q = 1"
  unfolding md_def adjacent4_def by linarith

lemma md_eq_0: "md p q = 0 \<longleftrightarrow> p = q"
  unfolding md_def prod_eq_iff by linarith

lemma manhattanDistance_md:
  assumes "wfGrid g" "inBounds p" "inBounds e"
  shows "manhattanDistance (cell g p) (cell g e) = md p e"
  using wfGrid_coords[OF assms(1,2)] wfGrid_coords[OF assms(1,3)]
  by (simp add: manhattanDistance_def md_def)

lemma getNeighbors_sameLayout:
  assumes "sameLayout g0 g" "inBounds p"
  shows "getNeighbors (cell g p) g = getNeighbors (cell g0 p) g0"
proof -
  have wf0: "wfGrid g0" and wf: "wfGrid g" using assms(1) by (simp_all add: sameLayout_def)
  have co: "node_x (cell g p) = node_x (cell g0 p)" "node_y (cell g p) = node_y (cell g0 p)"
    using wfGrid_coords[OF wf assms(2)] wfGrid_coords[OF wf0 assms(2)] by simp_all
  have b: "node_x (cell g0 p) < GRID_COLS" "node_y (cell g0 p) < GRID_ROWS"
    using wfGrid_coords[OF wf0 assms(2)] assms(2) by (simp_all add: inBounds_def)
  show ?thesis
    unfolding getNeighbors_def Let_def co
  proof (rule filter_cong[OF refl])
    fix q
    assume "q \<in> set ((if 0 < node_y (cell g0 p) then [(node_x (cell g0 p), node_y (cell g0 p) - 1)] else []) @
         (if node_y (cell g0 p) < GRID_ROWS - 1 then [(node_x (cell g0 p), node_y (cell g0 p) + 1)] else []) @
         (if 0 < node_x (cell g0 p) then [(node_x (cell g0 p) - 1, node_y (cell g0 p))] else []) @
         (if node_x (cell g0 p) < GRID_COLS - 1 then [(node_x (cell g0 p) + 1, node_y (cell g0 p))] else []))"
    then have "inBounds q"
      using b unfolding inBounds_def by (auto split: if_splits)
    then show "(\<not> isWall (cell g q)) = (\<not> isWall (cell g0 q))"
      using assms(1) unfolding sameLayout_def by blast
  qed
qed

lemma neighbor_inBounds:
  assumes "wfGrid g" "inBounds p" "q \<in> set (getNeighbors (cell g p) g)"
  shows "inBounds q" and "adjacent4 p q" and "q \<noteq> p" and "\<not> isWall (cell g q)"
proof -
  from assms(3) getNeighbors_iff[OF assms(1,2)]
  show ib: "inBounds q" and adj: "adjacent4 p q" and "\<not> isWall (cell g q)" by blast+
  show "q \<noteq> p" using adj by (auto simp: adjacent4_def)
qed

lemma validPath_Cons:
  "validPath g (p # ps) \<longleftrightarrow> (ps = [] \<or> (hd ps \<in> set (getNeighbors (cell g p) g) \<and> validPath g ps))"
  by (cases ps) auto

lemma validPath_snoc:
  "validPath g (ps @ [q]) \<longleftrightarrow>
     (ps = [] \<or> (validPath g ps \<and> q \<in> set (getNeighbors (cell g (last ps)) g)))"
proof (induction ps rule: validPath.induct)
  case (1 g)
  then show ?case by simp
next
  case (2 g p)
  then show ?case by simp
next
  case (3 g p r ps)
  then show ?case by auto
qed

lemma validPath_nonempty: "validPath g ps \<Longrightarrow> ps \<noteq> []"
  by auto

lemma validPath_inBounds:
  assumes wf: "wfGrid g"
  shows "validPath g ps \<Longrightarrow> inBounds (hd ps) \<Longrightarrow> \<forall>p \<in> set ps. inBounds p"
proof (induction ps)
  case Nil
  then show ?case by simp
next
  case (Cons p ps)
  show ?case
  proof (cases "ps = []")
    case True
    then show ?thesis using Cons.prems by simp
  next
    case False
    with Cons.prems(1) have n: "hd ps \<in> set (getNeighbors (cell g p) g)" and v: "validPath g ps"
      by (simp_all add: validPath_Cons)
    have "inBounds (hd ps)" using neighbor_inBounds(1)[OF wf _ n] Cons.prems(2) by simp
    then show ?thesis using Cons.IH[OF v] Cons.prems(2) by simp
  qed
qed

lemma validPath_md:
  assumes wf: "wfGrid g"
  shows "validPath g ps \<Longrightarrow> inBounds (hd ps) \<Longrightarrow> md (hd ps) (last ps) \<le> length ps - 1"
proof (induction ps)
  case Nil
  then show ?case by simp
next
  case (Cons p ps)
  show ?case
  proof (cases "ps = []")
    case True
    then show ?thesis by simp
  next
    case False
    with Cons.prems(1) have n: "hd ps \<in> set (getNeighbors (cell g p) g)" and v: "validPath g ps"
      by (simp_all add: validPath_Cons)
    have p: "inBounds p" using Cons.prems(2) by simp
    have ib: "inBounds (hd ps)" and adj: "adjacent4 p (hd ps)"
      using neighbor_inBounds(1,2)[OF wf p n] by simp_all
    have "md (hd ps) p \<le> 1" using adj by (simp add: adjacent4_md md_def abs_minus_commute)
    have "md p (last ps) \<le> md (hd ps) (last ps) + 1" by (rule md_adjacent(1)[OF adj])
    also have "\<dots> \<le> (length ps - 1) + 1" using Cons.IH[OF v ib] by simp
    finally show ?thesis using False by simp
  qed
qed

lemma enat_le_step:
  assumes "a \<le> b + 1" "b \<le> enat k"
  shows "a \<le> enat (Suc k)"
proof -
  have "b + 1 \<le> enat k + 1" using assms(2) by (rule add_right_mono)
  also have "\<dots> = enat (Suc k)" by (simp add: one_enat_def)
  finally show ?thesis using assms(1) by simp
qed

lemma frontier_from_finished:
  assumes wf: "wfGrid g0" and rel: "relaxedInv g0 g D F" and Din: "D \<subseteq> {p. inBounds p}"
  shows "validPath g0 ps \<Longrightarrow> hd ps \<in> D \<Longrightarrow> gScore (cell g (hd ps)) \<le> enat k \<Longrightarrow>
     (last ps \<in> D \<and> gScore (cell g (last ps)) \<le> enat (k + (length ps - 1))) \<or>
     (\<exists>q m. q \<in> F \<and> gScore (cell g q) \<le> enat m \<and> m + md q (last ps) \<le> k + (length ps - 1))"
proof (induction ps arbitrary: k)
  case Nil
  then show ?case by simp
next
  case (Cons p ps)
  show ?case
  proof (cases "ps = []")
    case True
    then show ?thesis using Cons.prems by simp
  next
    case False
    with Cons.prems(1) have n: "hd ps \<in> set (getNeighbors (cell g0 p) g0)" and v: "validPath g0 ps"
      by (simp_all add: validPath_Cons)
    have pD: "p \<in> D" and gp: "gScore (cell g p) \<le> enat k" using Cons.prems(2,3) by simp_all
    have p: "inBounds p" using pD Din by auto
    have ib: "inBounds (hd ps)" using neighbor_inBounds(1)[OF wf p n] .
    from rel pD n have r: "hd ps \<in> D \<union> F" "gScore (cell g (hd ps)) \<le> gScore (cell g p) + 1"
      by (auto simp: relaxedInv_def)
    have gr: "gScore (cell g (hd ps)) \<le> enat (Suc k)" by (rule enat_le_step[OF r(2) gp])
    have len: "k + (length (p # ps) - 1) = Suc k + (length ps - 1)" using False by (cases ps) simp_all
    have lst: "last (p # ps) = last ps" using False by simp
    show ?thesis
    proof (cases "hd ps \<in> D")
      case True
      show ?thesis unfolding lst len by (rule Cons.IH[OF v True gr])
    next
      case False
      then have "hd ps \<in> F" using r(1) by simp
      moreover have "Suc k + md (hd ps) (last ps) \<le> Suc k + (length ps - 1)"
        using validPath_md[OF wf v ib] by simp
      ultimately have "\<exists>q m. q \<in> F \<and> gScore (cell g q) \<le> enat m \<and>
          m + md q (last ps) \<le> Suc k + (length ps - 1)"
        using gr by blast
      then show ?thesis unfolding lst len by blast
    qed
  qed
qed

lemma frontier:
  assumes wf: "wfGrid g0" and rel: "relaxedInv g0 g D F" and Din: "D \<subseteq> {p. inBounds p}"
    and s: "inBounds s" "s \<in> D \<or> s \<in> F" "gScore (cell g s) = 0"
    and path: "pathBetween g0 s t ps"
  shows "(t \<in> D \<and> gScore (cell g t) \<le> enat (length ps - 1)) \<or>
     (\<exists>q m. q \<in> F \<and> gScore (cell g q) \<le> enat m \<and> m + md q t \<le> length ps - 1)"
proof -
  from path have v: "validPath g0 ps" and h: "hd ps = s" and l: "last ps = t"
    by (simp_all add: pathBetween_def)
  show ?thesis
  proof (cases "s \<in> D")
    case True
    have "gScore (cell g (hd ps)) \<le> enat 0" using s(3) h by (simp add: zero_enat_def)
    from frontier_from_finished[OF wf rel Din v _ this] True h l show ?thesis by simp
  next
    case False
    then have "s \<in> F" using s(2) by simp
    moreover have "gScore (cell g s) \<le> enat 0" using s(3) by (simp add: zero_enat_def)
    moreover have "0 + md s t \<le> length ps - 1" using validPath_md[OF wf v] h l s(1) by simp
    ultimately show ?thesis by blast
  qed
qed

subsection \<open>Following the parents\<close>

lemma followsParents_Cons:
  "followsParents g (p # bs) \<longleftrightarrow>
     (bs = [] \<and> parent (cell g p) = None) \<or>
     (bs \<noteq> [] \<and> parent (cell g p) = Some (hd bs) \<and> followsParents g bs)"
  by (cases bs) auto

lemma reconstructLoop_follows:
  "followsParents g bs \<Longrightarrow> reconstructLoop g (Some (hd bs)) acc = Some (rev bs @ acc)"
proof (induction bs arbitrary: acc)
  case Nil
  then show ?case by simp
next
  case (Cons p bs)
  show ?case
  proof (cases "bs = []")
    case True
    with Cons.prems have "parent (cell g p) = None" by simp
    then have "reconstructLoop g (Some p) acc = reconstructLoop g None (p # acc)"
      by (subst reconstructLoop.simps) simp
    also have "\<dots> = Some (p # acc)" by (subst reconstructLoop.simps) simp
    finally show ?thesis using True by simp
  next
    case False
    with Cons.prems have pa: "parent (cell g p) = Some (hd bs)" and f: "followsParents g bs"
      by (simp_all add: followsParents_Cons)
    have "reconstructLoop g (Some p) acc = reconstructLoop g (Some (hd bs)) (p # acc)"
      by (subst reconstructLoop.simps) (simp add: pa)
    also have "\<dots> = Some (rev bs @ (p # acc))" by (rule Cons.IH[OF f])
    finally show ?thesis by simp
  qed
qed

lemma reconstructPath_follows:
  "followsParents g bs \<Longrightarrow> reconstructPath g (hd bs) = Some (rev bs)"
  using reconstructLoop_follows[of g bs "[]"] by (simp add: reconstructPath_def)

lemma treeInv_chain:
  assumes tree: "treeInv g0 s g D"
  shows "inBounds p \<Longrightarrow> gScore (cell g p) = enat n \<Longrightarrow>
     \<exists>bs. followsParents g bs \<and> hd bs = p \<and> last bs = s \<and> length bs = Suc n \<and>
          validPath g0 (rev bs) \<and> set (tl bs) \<subseteq> D"
proof (induction n arbitrary: p)
  case 0
  have "p = s"
  proof (rule ccontr)
    assume "p \<noteq> s"
    with tree 0 obtain q where "gScore (cell g p) = gScore (cell g q) + 1"
      unfolding treeInv_def by (metis enat.distinct(2))
    with 0(2) show False by (cases "gScore (cell g q)") (simp_all add: one_enat_def)
  qed
  moreover have "parent (cell g s) = None" using tree by (simp add: treeInv_def)
  ultimately have "followsParents g [p] \<and> hd [p] = p \<and> last [p] = s \<and> length [p] = Suc 0 \<and>
          validPath g0 (rev [p]) \<and> set (tl [p]) \<subseteq> D"
    by simp
  then show ?case by blast
next
  case (Suc n)
  have "p \<noteq> s" using tree Suc.prems(2) by (auto simp: treeInv_def zero_enat_def)
  with tree Suc.prems obtain q where q: "q \<in> D" "inBounds q" "parent (cell g p) = Some q"
      "p \<in> set (getNeighbors (cell g0 q) g0)" "gScore (cell g p) = gScore (cell g q) + 1"
    unfolding treeInv_def by (metis enat.distinct(2))
  have "gScore (cell g q) = enat n"
    using q(5) Suc.prems(2) by (cases "gScore (cell g q)") (simp_all add: one_enat_def)
  from Suc.IH[OF q(2) this] obtain bs where bs: "followsParents g bs" "hd bs = q" "last bs = s"
      "length bs = Suc n" "validPath g0 (rev bs)" "set (tl bs) \<subseteq> D"
    by blast
  have ne: "bs \<noteq> []" using bs(4) by auto
  have "followsParents g (p # bs)" using bs(1,2) q(3) ne by (simp add: followsParents_Cons)
  moreover have "validPath g0 (rev (p # bs))"
    using bs(5,2) q(4) ne by (simp add: validPath_snoc last_rev)
  moreover have "set (tl (p # bs)) \<subseteq> D"
    using bs(6,2) q(1) ne by (cases bs) auto
  ultimately have "followsParents g (p # bs) \<and> hd (p # bs) = p \<and> last (p # bs) = s \<and>
      length (p # bs) = Suc (Suc n) \<and> validPath g0 (rev (p # bs)) \<and> set (tl (p # bs)) \<subseteq> D"
    using bs(3,4) ne by simp
  then show ?case by blast
qed

subsection \<open>Dijkstra: the working copy and one relaxation\<close>

lemma sameLayout_wf: "sameLayout g0 g \<Longrightarrow> wfGrid g0" "sameLayout g0 g \<Longrightarrow> wfGrid g"
  by (simp_all add: sameLayout_def)

lemma sameLayout_flags:
  assumes "sameLayout g0 g" "inBounds p"
  shows "isWall (cell g p) = isWall (cell g0 p)" "isStart (cell g p) = isStart (cell g0 p)"
    "isEnd (cell g p) = isEnd (cell g0 p)" "\<not> isVisited (cell g p)" "\<not> isPath (cell g p)"
  using assms unfolding sameLayout_def by blast+

lemma sameLayout_upd:
  assumes sl: "sameLayout g0 g" and p: "inBounds p"
    and f: "node_x (f (cell g p)) = node_x (cell g p)" "node_y (f (cell g p)) = node_y (cell g p)"
      "isWall (f (cell g p)) = isWall (cell g p)" "isStart (f (cell g p)) = isStart (cell g p)"
      "isEnd (f (cell g p)) = isEnd (cell g p)" "isVisited (f (cell g p)) = isVisited (cell g p)"
      "isPath (f (cell g p)) = isPath (cell g p)"
  shows "sameLayout g0 (upd g p f)"
proof -
  have wf: "wfGrid g" using sl by (rule sameLayout_wf)
  have wf': "wfGrid (upd g p f)" by (rule wfGrid_upd[OF wf p]) (rule f(1), rule f(2))
  show ?thesis
    unfolding sameLayout_def
    using sameLayout_wf(1)[OF sl] wf' sameLayout_flags[OF sl] f(3-7)
    by (simp add: cell_upd[OF wf p])
qed

lemma dijkstra_newGrid:
  assumes wf0: "wfGrid g0" and s: "inBounds s"
  defines "reset \<equiv> (\<lambda>node. node\<lparr>isVisited := False, isPath := False,
                                  gScore := \<infinity>, fScore := \<infinity>, parent := None\<rparr>)"
  defines "newGrid \<equiv> upd (upd (map (map reset) g0) s (\<lambda>n. n\<lparr>gScore := 0\<rparr>)) s (\<lambda>n. n\<lparr>fScore := 0\<rparr>)"
  shows "wfGrid newGrid"
    and "\<And>p. inBounds p \<Longrightarrow> cell newGrid p =
           (if p = s then (reset (cell g0 s))\<lparr>gScore := 0, fScore := 0\<rparr> else reset (cell g0 p))"
proof -
  have wf1: "wfGrid (map (map reset) g0)"
    by (rule wfGrid_map[OF wf0]) (simp_all add: reset_def)
  have wf2: "wfGrid (upd (map (map reset) g0) s (\<lambda>n. n\<lparr>gScore := 0\<rparr>))"
    by (rule wfGrid_upd[OF wf1 s]) simp_all
  show "wfGrid newGrid" unfolding newGrid_def by (rule wfGrid_upd[OF wf2 s]) simp_all
  fix p assume p: "inBounds p"
  show "cell newGrid p =
           (if p = s then (reset (cell g0 s))\<lparr>gScore := 0, fScore := 0\<rparr> else reset (cell g0 p))"
    unfolding newGrid_def
    by (simp add: cell_upd[OF wf2 s] cell_upd[OF wf1 s] cell_map[OF wf0 p] cell_map[OF wf0 s])
qed

lemma dijkstraInv_init:
  assumes wf0: "wfGrid g0" and s: "inBounds s"
  defines "newGrid \<equiv> upd (upd (map (map (\<lambda>node. node\<lparr>isVisited := False, isPath := False,
                                  gScore := \<infinity>, fScore := \<infinity>, parent := None\<rparr>)) g0)
                          s (\<lambda>n. n\<lparr>gScore := 0\<rparr>)) s (\<lambda>n. n\<lparr>fScore := 0\<rparr>)"
  shows "dijkstraInv g0 s newGrid (flat newGrid) []"
proof -
  note ng = dijkstra_newGrid[OF wf0 s, folded newGrid_def]
  have sl: "sameLayout g0 newGrid"
    unfolding sameLayout_def using wf0 ng(1) by (simp add: ng(2))
  have tree: "treeInv g0 s newGrid {}"
    unfolding treeInv_def using s by (simp add: ng(2))
  have rel: "relaxedInv g0 newGrid {} (set (flat newGrid))"
    by (simp add: relaxedInv_def)
  show ?thesis
    unfolding dijkstraInv_def
    using sl tree rel distinct_flat[OF ng(1)] set_flat[OF ng(1)] s
    by simp
qed

lemma relaxDijkstra_cell:
  assumes wf: "wfGrid g" and n: "inBounds n"
  shows "wfGrid (relaxDijkstra c g n)"
    and "cell (relaxDijkstra c g n) p =
          (if p = n \<and> gScore (cell g c) + 1 < gScore (cell g n)
           then (cell g n)\<lparr>gScore := gScore (cell g c) + 1, fScore := gScore (cell g c) + 1,
                            parent := Some c\<rparr>
           else cell g p)"
proof -
  show "wfGrid (relaxDijkstra c g n)"
    unfolding relaxDijkstra_def Let_def using wf by (auto intro!: wfGrid_upd[OF wf n])
  show "cell (relaxDijkstra c g n) p =
          (if p = n \<and> gScore (cell g c) + 1 < gScore (cell g n)
           then (cell g n)\<lparr>gScore := gScore (cell g c) + 1, fScore := gScore (cell g c) + 1,
                            parent := Some c\<rparr>
           else cell g p)"
    unfolding relaxDijkstra_def Let_def by (simp add: cell_upd[OF wf n])
qed

lemma relaxDijkstra_fold:
  assumes "wfGrid g" "\<forall>n \<in> set ns. inBounds n" "distinct ns" "c \<notin> set ns"
  shows "wfGrid (foldl (relaxDijkstra c) g ns) \<and>
         (\<forall>p. cell (foldl (relaxDijkstra c) g ns) p =
          (if p \<in> set ns \<and> gScore (cell g c) + 1 < gScore (cell g p)
           then (cell g p)\<lparr>gScore := gScore (cell g c) + 1, fScore := gScore (cell g c) + 1,
                            parent := Some c\<rparr>
           else cell g p))"
  using assms
proof (induction ns arbitrary: g)
  case Nil
  then show ?case by simp
next
  case (Cons n ns)
  have n: "inBounds n" using Cons.prems(2) by simp
  note r = relaxDijkstra_cell[OF Cons.prems(1) n, of c]
  have cn: "c \<noteq> n" using Cons.prems(4) by auto
  have gc: "gScore (cell (relaxDijkstra c g n) c) = gScore (cell g c)"
    using cn by (simp add: r(2))
  have IH: "wfGrid (foldl (relaxDijkstra c) (relaxDijkstra c g n) ns) \<and>
         (\<forall>p. cell (foldl (relaxDijkstra c) (relaxDijkstra c g n) ns) p =
          (if p \<in> set ns \<and> gScore (cell g c) + 1 < gScore (cell (relaxDijkstra c g n) p)
           then (cell (relaxDijkstra c g n) p)\<lparr>gScore := gScore (cell g c) + 1,
                   fScore := gScore (cell g c) + 1, parent := Some c\<rparr>
           else cell (relaxDijkstra c g n) p))"
    using Cons.IH[OF r(1)] Cons.prems(2,3,4) by (simp add: gc)
  have nn: "n \<notin> set ns" using Cons.prems(3) by simp
  note IHc = IH[THEN conjunct2, rule_format]
  show ?case
  proof (intro conjI allI)
    show "wfGrid (foldl (relaxDijkstra c) g (n # ns))" using IH by simp
    fix p
    show "cell (foldl (relaxDijkstra c) g (n # ns)) p =
         (if p \<in> set (n # ns) \<and> gScore (cell g c) + 1 < gScore (cell g p)
          then (cell g p)\<lparr>gScore := gScore (cell g c) + 1, fScore := gScore (cell g c) + 1,
                parent := Some c\<rparr>
          else cell g p)"
    proof (cases "p = n")
      case True
      then show ?thesis using nn by (simp add: IHc r(2))
    next
      case False
      then show ?thesis by (simp add: IHc r(2))
    qed
  qed
qed

subsection \<open>Dijkstra: one iteration keeps the invariant\<close>

lemma enat_succ_not_less: "\<not> (a + 1 < b) " if "b \<le> (a::enat)"
proof
  assume "a + 1 < b"
  then have "a + 1 < a" using that by (rule less_le_trans)
  then show False by (cases a) (simp_all add: one_enat_def)
qed

lemma enat_le_succ: "a \<le> a + (1::enat)"
  by (cases a) (simp_all add: one_enat_def)

lemma sorted_hd_tl:
  assumes "xs \<noteq> []" "distinct xs"
  shows "set (tl (sort_key k xs)) = set xs - {hd (sort_key k xs)}"
    and "distinct (tl (sort_key k xs))"
proof -
  obtain a as where ys: "sort_key k xs = a # as"
    using assms(1) by (cases "sort_key k xs") (auto dest: arg_cong[where f = length])
  have d: "distinct (a # as)" unfolding ys[symmetric] using assms(2) by simp
  have s: "set (a # as) = set xs" unfolding ys[symmetric] by simp
  show "set (tl (sort_key k xs)) = set xs - {hd (sort_key k xs)}"
    using d s by (auto simp: ys)
  show "distinct (tl (sort_key k xs))" using d by (simp add: ys)
qed

lemma treeInv_parent:
  assumes "treeInv g0 s g D" "inBounds p" "p \<noteq> s" "gScore (cell g p) \<noteq> \<infinity>"
  shows "\<exists>q \<in> D. inBounds q \<and> parent (cell g p) = Some q \<and>
           p \<in> set (getNeighbors (cell g0 q) g0) \<and> gScore (cell g p) = gScore (cell g q) + 1"
  using assms unfolding treeInv_def by blast

lemma dijkstra_step:
  assumes inv: "dijkstraInv g0 s g U V" and ne: "U \<noteq> []"
  defines "c \<equiv> hd (sort_key (\<lambda>n. gScore (cell g n)) U)"
  defines "g' \<equiv> foldl (relaxDijkstra c) g (getNeighbors (cell g c) g)"
  assumes fin: "gScore (cell g c) \<noteq> \<infinity>" and notEnd: "\<not> isEnd (cell g c)"
  shows "dijkstraInv g0 s g' (tl (sort_key (\<lambda>n. gScore (cell g n)) U)) (V @ [c])"
proof -
  let ?G = "\<lambda>p. gScore (cell g p)"
  let ?G' = "\<lambda>p. gScore (cell g' p)"
  let ?N = "getNeighbors (cell g0 c) g0"
  let ?U' = "tl (sort_key ?G U)"
  from inv have sl: "sameLayout g0 g" and dU: "distinct U" and dV: "distinct V"
    and disj: "set U \<inter> set V = {}" and un: "set U \<union> set V = {p. inBounds p}"
    and sIn: "s \<in> set U \<or> s \<in> set V" and tree: "treeInv g0 s g (set V)"
    and rel: "relaxedInv g0 g (set V) (set U)"
    and vEnd: "\<forall>q \<in> set V. \<not> isEnd (cell g q) \<and> ?G q \<noteq> \<infinity>"
    and mono: "\<forall>q \<in> set V. \<forall>u \<in> set U. ?G q \<le> ?G u"
    unfolding dijkstraInv_def by blast+
  have wf0: "wfGrid g0" and wf: "wfGrid g" using sl by (rule sameLayout_wf)+
  have cU: "c \<in> set U" and cmin: "\<forall>u \<in> set U. ?G c \<le> ?G u"
    unfolding c_def using sort_key_hd_min[OF ne, of ?G] by blast+
  have cIB: "inBounds c" using cU un by blast
  have cV: "c \<notin> set V" using cU disj by blast
  have N: "getNeighbors (cell g c) g = ?N" by (rule getNeighbors_sameLayout[OF sl cIB])
  have Nin: "\<forall>n \<in> set ?N. inBounds n" using neighbor_inBounds(1)[OF wf0 cIB] by blast
  have cN: "c \<notin> set ?N" using neighbor_inBounds(3)[OF wf0 cIB] by blast
  have g'_def': "g' = foldl (relaxDijkstra c) g ?N" unfolding g'_def N ..
  note fold = relaxDijkstra_fold[OF wf Nin getNeighbors_distinct cN, folded g'_def']
  have wf': "wfGrid g'" using fold by blast
  have cell': "cell g' p = (if p \<in> set ?N \<and> ?G c + 1 < ?G p
           then (cell g p)\<lparr>gScore := ?G c + 1, fScore := ?G c + 1, parent := Some c\<rparr>
           else cell g p)" for p
    using fold by blast
  have le: "?G' p \<le> ?G p" for p by (simp add: cell' order.strict_implies_order)
  have ge: "?G c \<le> ?G' p" if "?G c \<le> ?G p" for p using that by (simp add: cell' enat_le_succ)
  have frozenV: "cell g' q = cell g q" if "q \<in> set V" for q
  proof -
    have "?G q \<le> ?G c" using mono that cU by blast
    then have "\<not> (?G c + 1 < ?G q)" by (rule enat_succ_not_less)
    then show ?thesis by (simp add: cell')
  qed
  have frozenc: "cell g' c = cell g c" using cN by (simp add: cell')
  have nbr: "?G' n \<le> ?G c + 1" if "n \<in> set ?N" for n using that by (auto simp: cell')
  have setU': "set ?U' = set U - {c}" and dU': "distinct ?U'"
    unfolding c_def using sorted_hd_tl[OF ne dU, of ?G] by blast+
  have sl': "sameLayout g0 g'"
    unfolding sameLayout_def using wf0 wf' sameLayout_flags[OF sl] by (simp add: cell')
  have d1: "distinct (V @ [c])" using dV cV by simp
  have d2: "set ?U' \<inter> set (V @ [c]) = {}" using disj setU' by auto
  have d3: "set ?U' \<union> set (V @ [c]) = {p. inBounds p}" using un setU' cU by auto
  have d4: "s \<in> set ?U' \<or> s \<in> set (V @ [c])" using sIn setU' by auto
  have sIB: "inBounds s" and Gs: "?G s = 0" and ps: "parent (cell g s) = None"
    using tree by (simp_all add: treeInv_def)
  have cells: "cell g' s = cell g s" by (simp add: cell' Gs)
  have tree': "treeInv g0 s g' (set (V @ [c]))"
    unfolding treeInv_def
  proof (intro conjI allI impI)
    show "inBounds s" by (rule sIB)
    show "?G' s = 0" by (simp add: cells Gs)
    show "parent (cell g' s) = None" by (simp add: cells ps)
    fix p assume a: "inBounds p \<and> p \<noteq> s \<and> ?G' p \<noteq> \<infinity>"
    show "\<exists>q \<in> set (V @ [c]). inBounds q \<and> parent (cell g' p) = Some q \<and>
            p \<in> set (getNeighbors (cell g0 q) g0) \<and> ?G' p = ?G' q + 1"
    proof (cases "p \<in> set ?N \<and> ?G c + 1 < ?G p")
      case True
      then have "parent (cell g' p) = Some c" "?G' p = ?G c + 1" by (simp_all add: cell')
      then show ?thesis using True cIB frozenc by auto
    next
      case False
      then have same: "cell g' p = cell g p" unfolding cell' by (simp only: if_False)
      from a same have "inBounds p" "p \<noteq> s" "?G p \<noteq> \<infinity>" by simp_all
      from treeInv_parent[OF tree this]
      obtain q where q: "q \<in> set V" "inBounds q" "parent (cell g p) = Some q"
        "p \<in> set (getNeighbors (cell g0 q) g0)" "?G p = ?G q + 1"
        by blast
      then show ?thesis using frozenV[OF q(1)] same by auto
    qed
  qed
  have rel': "relaxedInv g0 g' (set (V @ [c])) (set ?U')"
    unfolding relaxedInv_def
  proof (intro ballI conjI)
    fix q r assume q: "q \<in> set (V @ [c])" and r: "r \<in> set (getNeighbors (cell g0 q) g0)"
    have qIB: "inBounds q" using q un cIB by auto
    have rIB: "inBounds r" using neighbor_inBounds(1)[OF wf0 qIB r] .
    show "r \<in> set (V @ [c]) \<union> set ?U'" using rIB d3 by blast
    show "?G' r \<le> ?G' q + 1"
    proof (cases "q = c")
      case True
      then show ?thesis using nbr r frozenc by simp
    next
      case False
      then have qV: "q \<in> set V" using q by simp
      have "?G' r \<le> ?G r" by (rule le)
      also have "\<dots> \<le> ?G q + 1" using rel qV r by (auto simp: relaxedInv_def)
      finally show ?thesis using frozenV[OF qV] by simp
    qed
  qed
  have vEnd': "\<forall>q \<in> set (V @ [c]). \<not> isEnd (cell g' q) \<and> ?G' q \<noteq> \<infinity>"
    using vEnd frozenV frozenc fin notEnd by auto
  have mono': "\<forall>q \<in> set (V @ [c]). \<forall>u \<in> set ?U'. ?G' q \<le> ?G' u"
  proof (intro ballI)
    fix q u assume q: "q \<in> set (V @ [c])" and u: "u \<in> set ?U'"
    have uU: "u \<in> set U" using u setU' by simp
    have "?G c \<le> ?G' u" using ge cmin uU by blast
    moreover have "?G' q \<le> ?G c"
    proof (cases "q = c")
      case True
      then show ?thesis by (simp add: frozenc)
    next
      case False
      then have qV: "q \<in> set V" using q by simp
      then show ?thesis using mono cU frozenV[OF qV] by auto
    qed
    ultimately show "?G' q \<le> ?G' u" by (rule order_trans[rotated])
  qed
  show ?thesis
    unfolding dijkstraInv_def
    using sl' dU' d1 d2 d3 d4 tree' rel' vEnd' mono' by blast
qed

subsection \<open>Dijkstra: the loop returns, and what it returns\<close>

lemma dijkstra_reach:
  assumes inv: "dijkstraInv g0 s g U V" and path: "pathBetween g0 s p ps"
  shows "p \<in> set V \<or> (\<exists>q m. q \<in> set U \<and> gScore (cell g q) \<le> enat m \<and> m \<le> length ps - 1)"
proof -
  from inv have sl: "sameLayout g0 g" and un: "set U \<union> set V = {p. inBounds p}"
    and sIn: "s \<in> set U \<or> s \<in> set V" and tree: "treeInv g0 s g (set V)"
    and rel: "relaxedInv g0 g (set V) (set U)"
    unfolding dijkstraInv_def by blast+
  have wf0: "wfGrid g0" using sl by (rule sameLayout_wf)
  have sIB: "inBounds s" and Gs: "gScore (cell g s) = 0" using tree by (simp_all add: treeInv_def)
  have Din: "set V \<subseteq> {p. inBounds p}" using un by blast
  have sIn': "s \<in> set V \<or> s \<in> set U" using sIn by blast
  from frontier[OF wf0 rel Din sIB sIn' Gs path] show ?thesis
    by (metis add_leD1)
qed

lemma visited_not_end:
  assumes inv: "dijkstraInv g0 s g U V"
    and endp: "\<forall>p. inBounds p \<longrightarrow> (isEnd (cell g0 p) \<longleftrightarrow> p = e)"
  shows "\<forall>q \<in> set V. inBounds q \<and> q \<noteq> e"
proof
  fix q assume q: "q \<in> set V"
  from inv have sl: "sameLayout g0 g" and un: "set U \<union> set V = {p. inBounds p}"
    and vEnd: "\<forall>q \<in> set V. \<not> isEnd (cell g q) \<and> gScore (cell g q) \<noteq> \<infinity>"
    unfolding dijkstraInv_def by blast+
  have qIB: "inBounds q" using q un by blast
  have "\<not> isEnd (cell g0 q)" using vEnd q sameLayout_flags(3)[OF sl qIB] by simp
  then show "inBounds q \<and> q \<noteq> e" using qIB endp by blast
qed

lemma dijkstra_exhausted:
  assumes inv: "dijkstraInv g0 s g U V"
    and endp: "inBounds e" "\<forall>p. inBounds p \<longrightarrow> (isEnd (cell g0 p) \<longleftrightarrow> p = e)"
    and noFrontier: "\<forall>u \<in> set U. gScore (cell g u) = \<infinity>"
  shows "searchPost g0 s e (Exhausted V) \<and>
         (\<forall>p. shortRoute g0 s (Exhausted V) p \<longrightarrow> p \<in> set (visitedOf (Exhausted V)))"
proof -
  have dV: "distinct V" using inv unfolding dijkstraInv_def by blast
  note ne = visited_not_end[OF inv endp(2)]
  have all: "p \<in> set V" if "pathBetween g0 s p ps" for p ps
    using dijkstra_reach[OF inv that] noFrontier by auto
  have "\<not> pathBetween g0 s e ps" for ps using all[of e ps] ne by blast
  then show ?thesis
    using dV ne all by (auto simp: searchPost_def shortRoute_def)
qed

lemma dijkstra_found:
  assumes inv: "dijkstraInv g0 s g U V" and ne: "U \<noteq> []"
    and endp: "inBounds e" "\<forall>p. inBounds p \<longrightarrow> (isEnd (cell g0 p) \<longleftrightarrow> p = e)"
  defines "c \<equiv> hd (sort_key (\<lambda>n. gScore (cell g n)) U)"
  assumes fin: "gScore (cell g c) \<noteq> \<infinity>" and isE: "isEnd (cell g c)"
  shows "\<exists>path. reconstructPath g c = Some path \<and> searchPost g0 s e (Found V path g) \<and>
         (\<forall>p. shortRoute g0 s (Found V path g) p \<longrightarrow> p \<in> set V)"
proof -
  let ?G = "\<lambda>p. gScore (cell g p)"
  from inv have sl: "sameLayout g0 g" and dV: "distinct V"
    and un: "set U \<union> set V = {p. inBounds p}" and tree: "treeInv g0 s g (set V)"
    unfolding dijkstraInv_def by blast+
  have cU: "c \<in> set U" and cmin: "\<forall>u \<in> set U. ?G c \<le> ?G u"
    unfolding c_def using sort_key_hd_min[OF ne, of ?G] by blast+
  have cIB: "inBounds c" using cU un by blast
  have ce: "c = e" using isE sameLayout_flags(3)[OF sl cIB] endp(2) cIB by blast
  obtain k where k: "?G c = enat k" using fin by (cases "?G c") auto
  from treeInv_chain[OF tree cIB k] obtain bs where bs: "followsParents g bs" "hd bs = c"
      "last bs = s" "length bs = Suc k" "validPath g0 (rev bs)"
    by blast
  have bne: "bs \<noteq> []" using bs(4) by auto
  have rp: "reconstructPath g c = Some (rev bs)"
    using reconstructPath_follows[OF bs(1)] bs(2) by simp
  have pb: "pathBetween g0 s e (rev bs)"
    unfolding pathBetween_def using bs bne ce by (simp add: hd_rev last_rev)
  note nend = visited_not_end[OF inv endp(2)]
  have lower: "k \<le> length ps - 1 \<or> p \<in> set V" if "pathBetween g0 s p ps" for p ps
  proof -
    from dijkstra_reach[OF inv that] show ?thesis
    proof
      assume "p \<in> set V" then show ?thesis by simp
    next
      assume "\<exists>q m. q \<in> set U \<and> ?G q \<le> enat m \<and> m \<le> length ps - 1"
      then obtain q m where q: "q \<in> set U" "?G q \<le> enat m" "m \<le> length ps - 1" by blast
      have "?G c \<le> enat m" using cmin q(1,2) by (blast intro: order_trans)
      then have "k \<le> m" by (simp add: k)
      then show ?thesis using q(3) by simp
    qed
  qed
  have opt: "length (rev bs) \<le> length ps" if "pathBetween g0 s e ps" for ps
  proof -
    have "ps \<noteq> []" using that by (simp add: pathBetween_def)
    moreover have "k \<le> length ps - 1" using lower[OF that] nend by blast
    ultimately show ?thesis using bs(4) by (cases ps) simp_all
  qed
  have cov: "p \<in> set V" if "shortRoute g0 s (Found V (rev bs) g) p" for p
  proof -
    from that obtain ps where ps: "pathBetween g0 s p ps" "length ps < Suc k"
      by (auto simp: shortRoute_def bs(4))
    have "ps \<noteq> []" using ps(1) by (simp add: pathBetween_def)
    then have "\<not> k \<le> length ps - 1" using ps(2) by (cases ps) simp_all
    then show ?thesis using lower[OF ps(1)] by blast
  qed
  have "searchPost g0 s e (Found V (rev bs) g)"
    unfolding searchPost_def using sl pb bs(1) opt dV nend by simp
  then show ?thesis using rp cov by blast
qed

lemma dijkstraLoop_correct:
  assumes endp: "inBounds e" "\<forall>p. inBounds p \<longrightarrow> (isEnd (cell g0 p) \<longleftrightarrow> p = e)"
  shows "dijkstraInv g0 s g U V \<Longrightarrow>
     \<exists>r. dijkstraLoop g U V = Some r \<and> searchPost g0 s e r \<and>
         (\<forall>p. shortRoute g0 s r p \<longrightarrow> p \<in> set (visitedOf r))"
proof (induction "length U" arbitrary: g U V rule: less_induct)
  case less
  let ?G = "\<lambda>p. gScore (cell g p)"
  let ?c = "hd (sort_key ?G U)"
  note inv = less.prems
  show ?case
  proof (cases "U = []")
    case True
    have "dijkstraLoop g U V = Some (Exhausted V)"
      by (subst dijkstraLoop.simps) (simp add: True)
    moreover have "\<forall>u \<in> set U. ?G u = \<infinity>" using True by simp
    ultimately show ?thesis using dijkstra_exhausted[OF inv endp] by simp
  next
    case False
    show ?thesis
    proof (cases "?G ?c = \<infinity>")
      case True
      have "dijkstraLoop g U V = Some (Exhausted V)"
        by (subst dijkstraLoop.simps) (simp add: True Let_def)
      moreover have "\<forall>u \<in> set U. ?G u = \<infinity>"
        using sort_key_hd_min(2)[OF False, of ?G] True by simp
      ultimately show ?thesis using dijkstra_exhausted[OF inv endp] by simp
    next
      case fin: False
      show ?thesis
      proof (cases "isEnd (cell g ?c)")
        case True
        from dijkstra_found[OF inv False endp fin True] obtain path where
          p: "reconstructPath g ?c = Some path" "searchPost g0 s e (Found V path g)"
            "\<forall>p. shortRoute g0 s (Found V path g) p \<longrightarrow> p \<in> set V"
          by blast
        have "dijkstraLoop g U V = Some (Found V path g)"
          by (subst dijkstraLoop.simps) (simp add: False fin True p(1) Let_def)
        then show ?thesis using p(2,3) by simp
      next
        case notEnd: False
        let ?g' = "foldl (relaxDijkstra ?c) g (getNeighbors (cell g ?c) g)"
        let ?U' = "tl (sort_key ?G U)"
        have inv': "dijkstraInv g0 s ?g' ?U' (V @ [?c])"
          by (rule dijkstra_step[OF inv False fin notEnd])
        have "length ?U' < length U" using False by simp
        from less.hyps[OF this inv'] obtain r where
          r: "dijkstraLoop ?g' ?U' (V @ [?c]) = Some r" "searchPost g0 s e r"
            "\<forall>p. shortRoute g0 s r p \<longrightarrow> p \<in> set (visitedOf r)"
          by blast
        have "dijkstraLoop g U V = dijkstraLoop ?g' ?U' (V @ [?c])"
          by (subst dijkstraLoop.simps) (simp add: False fin notEnd Let_def)
        then show ?thesis using r by simp
      qed
    qed
  qed
qed

lemma stateInv_endpoints:
  assumes "stateInv st" "startNode st = Some s" "endNode st = Some e"
  shows "wfGrid (grid st)" "inBounds s" "inBounds e"
    "\<forall>p. inBounds p \<longrightarrow> (isEnd (cell (grid st) p) \<longleftrightarrow> p = e)"
    "\<forall>p. inBounds p \<longrightarrow> (isStart (cell (grid st) p) \<longleftrightarrow> p = s)"
  using assms unfolding stateInv_iff by auto

lemma dijkstraSearch_correct:
  assumes "stateInv st" "startNode st = Some s" "endNode st = Some e"
  shows "\<exists>r. dijkstraSearch (grid st) s = Some r \<and> searchPost (grid st) s e r \<and>
         (\<forall>p. shortRoute (grid st) s r p \<longrightarrow> p \<in> set (visitedOf r))"
proof -
  note ep = stateInv_endpoints[OF assms]
  show ?thesis
    unfolding dijkstraSearch_def Let_def
    by (rule dijkstraLoop_correct[OF ep(3,4) dijkstraInv_init[OF ep(1,2)]])
qed

subsection \<open>A*: the working copy and one relaxation\<close>

lemma aStar_newGrid:
  assumes wf0: "wfGrid g0" and s: "inBounds s" and e: "inBounds e"
  defines "reset \<equiv> (\<lambda>node. node\<lparr>isVisited := False, isPath := False,
                                  gScore := \<infinity>, hScore := 0, fScore := \<infinity>, parent := None\<rparr>)"
  defines "g1 \<equiv> upd (map (map reset) g0) s (\<lambda>n. n\<lparr>gScore := 0\<rparr>)"
  defines "g2 \<equiv> upd g1 s (\<lambda>n. n\<lparr>hScore := manhattanDistance n (cell g1 e)\<rparr>)"
  defines "newGrid \<equiv> upd g2 s (\<lambda>n. n\<lparr>fScore := enat (hScore n)\<rparr>)"
  shows "wfGrid newGrid"
    and "\<And>p. inBounds p \<Longrightarrow> cell newGrid p =
           (if p = s then (reset (cell g0 s))\<lparr>gScore := 0, hScore := md s e, fScore := enat (md s e)\<rparr>
            else reset (cell g0 p))"
proof -
  have wf0': "wfGrid (map (map reset) g0)"
    by (rule wfGrid_map[OF wf0]) (simp_all add: reset_def)
  have wf1: "wfGrid g1" unfolding g1_def by (rule wfGrid_upd[OF wf0' s]) simp_all
  have wf2: "wfGrid g2" unfolding g2_def by (rule wfGrid_upd[OF wf1 s]) simp_all
  show wf3: "wfGrid newGrid" unfolding newGrid_def by (rule wfGrid_upd[OF wf2 s]) simp_all
  have c1: "cell g1 p = (if p = s then (reset (cell g0 s))\<lparr>gScore := 0\<rparr> else reset (cell g0 p))"
    if "inBounds p" for p
    unfolding g1_def by (simp add: cell_upd[OF wf0' s] cell_map[OF wf0 that] cell_map[OF wf0 s])
  have "manhattanDistance (cell g1 s) (cell g1 e) = md s e"
    by (rule manhattanDistance_md[OF wf1 s e])
  then have h: "manhattanDistance ((reset (cell g0 s))\<lparr>gScore := 0\<rparr>) (cell g1 e) = md s e"
    by (simp add: c1[OF s])
  fix p assume p: "inBounds p"
  show "cell newGrid p =
           (if p = s then (reset (cell g0 s))\<lparr>gScore := 0, hScore := md s e, fScore := enat (md s e)\<rparr>
            else reset (cell g0 p))"
    unfolding newGrid_def g2_def
    by (simp add: cell_upd[OF wf2[unfolded g2_def] s] cell_upd[OF wf1 s] h c1[OF p] c1[OF s])
qed

lemma aStarInv_init:
  assumes wf0: "wfGrid g0" and s: "inBounds s" and e: "inBounds e"
  shows "aStarInv g0 s e
     (let newGrid0 = map (map (\<lambda>node. node\<lparr>isVisited := False, isPath := False,
                                            gScore := \<infinity>, hScore := 0, fScore := \<infinity>,
                                            parent := None\<rparr>)) g0;
          g1 = upd newGrid0 s (\<lambda>n. n\<lparr>gScore := 0\<rparr>);
          g2 = upd g1 s (\<lambda>n. n\<lparr>hScore := manhattanDistance n (cell g1 e)\<rparr>)
      in upd g2 s (\<lambda>n. n\<lparr>fScore := enat (hScore n)\<rparr>)) [s] {} []"
proof -
  define newGrid where "newGrid =
     (let newGrid0 = map (map (\<lambda>node. node\<lparr>isVisited := False, isPath := False,
                                            gScore := \<infinity>, hScore := 0, fScore := \<infinity>,
                                            parent := None\<rparr>)) g0;
          g1 = upd newGrid0 s (\<lambda>n. n\<lparr>gScore := 0\<rparr>);
          g2 = upd g1 s (\<lambda>n. n\<lparr>hScore := manhattanDistance n (cell g1 e)\<rparr>)
      in upd g2 s (\<lambda>n. n\<lparr>fScore := enat (hScore n)\<rparr>))"
  note ng = aStar_newGrid[OF wf0 s e, folded newGrid_def[unfolded Let_def]]
  have sl: "sameLayout g0 newGrid"
    unfolding sameLayout_def using wf0 ng(1) by (simp add: ng(2))
  have tree: "treeInv g0 s newGrid {}"
    unfolding treeInv_def using s by (simp add: ng(2))
  have rel: "relaxedInv g0 newGrid {} (set [s])" by (simp add: relaxedInv_def)
  have fin: "\<forall>p. inBounds p \<longrightarrow> (gScore (cell newGrid p) \<noteq> \<infinity> \<longleftrightarrow> p \<in> set [s] \<union> {})"
    by (simp add: ng(2) zero_enat_def)
  have f: "\<forall>p \<in> set [s] \<union> {}. fScore (cell newGrid p) = gScore (cell newGrid p) + enat (md p e)"
    using s by (simp add: ng(2))
  have "aStarInv g0 s e newGrid [s] {} []"
    unfolding aStarInv_def using sl e s tree rel fin f by simp
  then show ?thesis unfolding newGrid_def .
qed

lemma relaxAStar_one:
  assumes wf: "wfGrid g" and n: "inBounds n" and e: "inBounds e"
  shows "wfGrid (fst (relaxAStar e c C (g, opn) n))"
    and "snd (relaxAStar e c C (g, opn) n) = (if n \<notin> C \<and> n \<notin> set opn then opn @ [n] else opn)"
    and "cell (fst (relaxAStar e c C (g, opn) n)) p =
          (if p = n \<and> n \<notin> C \<and> (n \<notin> set opn \<or> gScore (cell g c) + 1 < gScore (cell g n))
           then (cell g n)\<lparr>parent := Some c, gScore := gScore (cell g c) + 1, hScore := md n e,
                            fScore := gScore (cell g c) + 1 + enat (md n e)\<rparr>
           else cell g p)"
proof -
  define g1 where "g1 = upd g n (\<lambda>n'. n'\<lparr>parent := Some c\<rparr>)"
  define g2 where "g2 = upd g1 n (\<lambda>n'. n'\<lparr>gScore := gScore (cell g c) + 1\<rparr>)"
  define g3 where "g3 = upd g2 n (\<lambda>n'. n'\<lparr>hScore := manhattanDistance n' (cell g2 e)\<rparr>)"
  define g4 where "g4 = upd g3 n (\<lambda>n'. n'\<lparr>fScore := gScore n' + enat (hScore n')\<rparr>)"
  have wf1: "wfGrid g1" unfolding g1_def by (rule wfGrid_upd[OF wf n]) simp_all
  have wf2: "wfGrid g2" unfolding g2_def by (rule wfGrid_upd[OF wf1 n]) simp_all
  have wf3: "wfGrid g3" unfolding g3_def by (rule wfGrid_upd[OF wf2 n]) simp_all
  have wf4: "wfGrid g4" unfolding g4_def by (rule wfGrid_upd[OF wf3 n]) simp_all
  have h: "manhattanDistance (cell g2 n) (cell g2 e) = md n e"
    by (rule manhattanDistance_md[OF wf2 n e])
  have c2: "cell g2 q = (if q = n then (cell g n)\<lparr>parent := Some c,
                 gScore := gScore (cell g c) + 1\<rparr> else cell g q)" for q
    unfolding g2_def g1_def by (simp add: cell_upd[OF wf1[unfolded g1_def] n] cell_upd[OF wf n])
  have c3: "cell g3 q = (if q = n then (cell g2 n)\<lparr>hScore := md n e\<rparr> else cell g2 q)" for q
    unfolding g3_def by (simp add: cell_upd[OF wf2 n] h)
  have ca: "cell g4 q = (if q = n then (cell g n)\<lparr>parent := Some c,
                 gScore := gScore (cell g c) + 1, hScore := md n e,
                 fScore := gScore (cell g c) + 1 + enat (md n e)\<rparr> else cell g q)" for q
    unfolding g4_def by (simp add: cell_upd[OF wf3 n] c3 c2)
  have r: "relaxAStar e c C (g, opn) n =
      (if n \<in> C then (g, opn)
       else if n \<notin> set opn then (g4, opn @ [n])
       else if gScore (cell g c) + 1 \<ge> gScore (cell g n) then (g, opn)
       else (g4, opn))"
    by (simp add: relaxAStar_def Let_def g1_def g2_def g3_def g4_def)
  show "wfGrid (fst (relaxAStar e c C (g, opn) n))" unfolding r using wf wf4 by simp
  show "snd (relaxAStar e c C (g, opn) n) = (if n \<notin> C \<and> n \<notin> set opn then opn @ [n] else opn)"
    unfolding r by simp
  show "cell (fst (relaxAStar e c C (g, opn) n)) p =
          (if p = n \<and> n \<notin> C \<and> (n \<notin> set opn \<or> gScore (cell g c) + 1 < gScore (cell g n))
           then (cell g n)\<lparr>parent := Some c, gScore := gScore (cell g c) + 1, hScore := md n e,
                            fScore := gScore (cell g c) + 1 + enat (md n e)\<rparr>
           else cell g p)"
    unfolding r by (auto simp: ca)
qed

lemma relaxAStar_fold:
  assumes "wfGrid g" "\<forall>n \<in> set ns. inBounds n" "distinct ns" "c \<notin> set ns" "inBounds e"
  shows "wfGrid (fst (foldl (relaxAStar e c C) (g, opn) ns)) \<and>
         snd (foldl (relaxAStar e c C) (g, opn) ns) = opn @ filter (\<lambda>n. n \<notin> C \<and> n \<notin> set opn) ns \<and>
         (\<forall>p. cell (fst (foldl (relaxAStar e c C) (g, opn) ns)) p =
          (if p \<in> set ns \<and> p \<notin> C \<and> (p \<notin> set opn \<or> gScore (cell g c) + 1 < gScore (cell g p))
           then (cell g p)\<lparr>parent := Some c, gScore := gScore (cell g c) + 1, hScore := md p e,
                            fScore := gScore (cell g c) + 1 + enat (md p e)\<rparr>
           else cell g p))"
  using assms(1-4)
proof (induction ns arbitrary: g opn)
  case Nil
  then show ?case by simp
next
  case (Cons n ns)
  have n: "inBounds n" using Cons.prems(2) by simp
  note r = relaxAStar_one[OF Cons.prems(1) n assms(5), of c C opn]
  obtain g1 O1 where st: "relaxAStar e c C (g, opn) n = (g1, O1)" by (cases "relaxAStar e c C (g, opn) n")
  have wf1: "wfGrid g1" using r(1) st by simp
  have O1: "O1 = (if n \<notin> C \<and> n \<notin> set opn then opn @ [n] else opn)" using r(2) st by simp
  have c1: "cell g1 p = (if p = n \<and> n \<notin> C \<and> (n \<notin> set opn \<or> gScore (cell g c) + 1 < gScore (cell g n))
           then (cell g n)\<lparr>parent := Some c, gScore := gScore (cell g c) + 1, hScore := md n e,
                            fScore := gScore (cell g c) + 1 + enat (md n e)\<rparr>
           else cell g p)" for p
    using r(3)[of p] st by simp
  have cn: "c \<noteq> n" and nn: "n \<notin> set ns" using Cons.prems(3,4) by auto
  have p2: "\<forall>n \<in> set ns. inBounds n" and p3: "distinct ns" and p4: "c \<notin> set ns"
    using Cons.prems(2,3,4) by simp_all
  have gc: "gScore (cell g1 c) = gScore (cell g c)" using cn by (simp add: c1)
  have IH: "wfGrid (fst (foldl (relaxAStar e c C) (g1, O1) ns)) \<and>
         snd (foldl (relaxAStar e c C) (g1, O1) ns) = O1 @ filter (\<lambda>n. n \<notin> C \<and> n \<notin> set O1) ns \<and>
         (\<forall>p. cell (fst (foldl (relaxAStar e c C) (g1, O1) ns)) p =
          (if p \<in> set ns \<and> p \<notin> C \<and> (p \<notin> set O1 \<or> gScore (cell g c) + 1 < gScore (cell g1 p))
           then (cell g1 p)\<lparr>parent := Some c, gScore := gScore (cell g c) + 1, hScore := md p e,
                            fScore := gScore (cell g c) + 1 + enat (md p e)\<rparr>
           else cell g1 p))"
    using Cons.IH[OF wf1 p2 p3 p4, of O1] unfolding gc .
  note IHo = IH[THEN conjunct2, THEN conjunct1]
  note IHc = IH[THEN conjunct2, THEN conjunct2, rule_format]
  have inO1: "p \<in> set O1 \<longleftrightarrow> p \<in> set opn" if "p \<in> set ns" for p
    using that nn by (auto simp: O1)
  have filt: "filter (\<lambda>n. n \<notin> C \<and> n \<notin> set O1) ns = filter (\<lambda>n. n \<notin> C \<and> n \<notin> set opn) ns"
    by (rule filter_cong[OF refl]) (simp add: inO1)
  have step: "foldl (relaxAStar e c C) (g, opn) (n # ns) = foldl (relaxAStar e c C) (g1, O1) ns"
    by (simp add: st)
  show ?case
  proof (intro conjI allI)
    show "wfGrid (fst (foldl (relaxAStar e c C) (g, opn) (n # ns)))" unfolding step using IH by simp
    show "snd (foldl (relaxAStar e c C) (g, opn) (n # ns)) =
        opn @ filter (\<lambda>n. n \<notin> C \<and> n \<notin> set opn) (n # ns)"
      unfolding step IHo filt by (simp add: O1)
    fix p
    show "cell (fst (foldl (relaxAStar e c C) (g, opn) (n # ns))) p =
         (if p \<in> set (n # ns) \<and> p \<notin> C \<and> (p \<notin> set opn \<or> gScore (cell g c) + 1 < gScore (cell g p))
          then (cell g p)\<lparr>parent := Some c, gScore := gScore (cell g c) + 1, hScore := md p e,
                fScore := gScore (cell g c) + 1 + enat (md p e)\<rparr>
          else cell g p)"
    proof (cases "p = n")
      case True
      then show ?thesis unfolding step using nn by (simp add: IHc c1)
    next
      case False
      show ?thesis
      proof (cases "p \<in> set ns")
        case True
        then show ?thesis unfolding step using False by (simp add: IHc c1 inO1)
      next
        case False
        then show ?thesis unfolding step using \<open>p \<noteq> n\<close> by (simp add: IHc c1)
      qed
    qed
  qed
qed

subsection \<open>A*: one iteration keeps the invariant\<close>

lemma aStar_step:
  assumes inv: "aStarInv g0 s e g opn C V" and ne: "opn \<noteq> []"
  defines "c \<equiv> hd (sort_key (\<lambda>n. fScore (cell g n)) opn)"
  defines "rest \<equiv> tl (sort_key (\<lambda>n. fScore (cell g n)) opn)"
  defines "st \<equiv> foldl (relaxAStar e c (insert c C)) (g, rest) (getNeighbors (cell g c) g)"
  assumes notEnd: "\<not> isEnd (cell g c)"
  shows "aStarInv g0 s e (fst st) (snd st) (insert c C) (V @ [c])"
proof -
  let ?G = "\<lambda>p. gScore (cell g p)" and ?F = "\<lambda>p. fScore (cell g p)"
  let ?g' = "fst st" and ?O' = "snd st" and ?C' = "insert c C"
  let ?G' = "\<lambda>p. gScore (cell ?g' p)" and ?F' = "\<lambda>p. fScore (cell ?g' p)"
  let ?N = "getNeighbors (cell g0 c) g0"
  from inv have sl: "sameLayout g0 g" and eIB: "inBounds e" and dO: "distinct opn"
    and dV: "distinct V" and CV: "C = set V" and disj: "set opn \<inter> C = {}"
    and sub: "set opn \<union> C \<subseteq> {p. inBounds p}" and sIn: "s \<in> set opn \<or> s \<in> C"
    and tree: "treeInv g0 s g C" and rel: "relaxedInv g0 g C (set opn)"
    and finI: "\<forall>p. inBounds p \<longrightarrow> (?G p \<noteq> \<infinity> \<longleftrightarrow> p \<in> set opn \<union> C)"
    and fI: "\<forall>p \<in> set opn \<union> C. ?F p = ?G p + enat (md p e)"
    and cEnd: "\<forall>q \<in> C. \<not> isEnd (cell g q)"
    and mono: "\<forall>q \<in> C. \<forall>u \<in> set opn. ?F q \<le> ?F u"
    unfolding aStarInv_def by blast+
  have wf0: "wfGrid g0" and wf: "wfGrid g" using sl by (rule sameLayout_wf)+
  have cO: "c \<in> set opn" and fmin: "\<forall>u \<in> set opn. ?F c \<le> ?F u"
    unfolding c_def using sort_key_hd_min[OF ne, of ?F] by blast+
  have cIB: "inBounds c" using cO sub by blast
  have cC: "c \<notin> C" using cO disj by blast
  have setRest: "set rest = set opn - {c}" and dRest: "distinct rest"
    unfolding rest_def c_def using sorted_hd_tl[OF ne dO, of ?F] by blast+
  have N: "getNeighbors (cell g c) g = ?N" by (rule getNeighbors_sameLayout[OF sl cIB])
  have Nin: "\<forall>n \<in> set ?N. inBounds n" using neighbor_inBounds(1)[OF wf0 cIB] by blast
  have cN: "c \<notin> set ?N" using neighbor_inBounds(3)[OF wf0 cIB] by blast
  have Nadj: "adjacent4 c n" if "n \<in> set ?N" for n using neighbor_inBounds(2)[OF wf0 cIB that] .
  have st_def': "st = foldl (relaxAStar e c ?C') (g, rest) ?N" unfolding st_def N ..
  note fold = relaxAStar_fold[OF wf Nin getNeighbors_distinct cN eIB, of ?C' rest, folded st_def']
  have wf': "wfGrid ?g'" using fold by blast
  have O': "?O' = rest @ filter (\<lambda>n. n \<notin> ?C' \<and> n \<notin> set rest) ?N" using fold by blast
  define changed where
    "changed p \<longleftrightarrow> p \<in> set ?N \<and> p \<notin> ?C' \<and> (p \<notin> set rest \<or> ?G c + 1 < ?G p)" for p
  have cell': "cell ?g' p = (if changed p
           then (cell g p)\<lparr>parent := Some c, gScore := ?G c + 1, hScore := md p e,
                            fScore := ?G c + 1 + enat (md p e)\<rparr>
           else cell g p)" for p
    unfolding changed_def using fold by blast
  have "?G c \<noteq> \<infinity>" using finI cIB cO by blast
  then obtain k where k: "?G c = enat k" by (cases "?G c") auto
  have t: "?G c + 1 = enat (Suc k)" by (simp add: k one_enat_def)
  have Fc: "?F c = enat (k + md c e)" using fI cO by (simp add: k)
  have frozen: "cell ?g' q = cell g q" if "q \<in> ?C'" for q
    using that by (simp add: cell' changed_def)
  have setO': "set ?O' = set rest \<union> {n \<in> set ?N. n \<notin> ?C' \<and> n \<notin> set rest}"
    unfolding O' by auto
  have new_changed: "changed p" if "p \<in> set ?O'" "p \<notin> set rest" for p
    using that unfolding setO' changed_def by blast
  have changed_O': "p \<in> set ?O'" if "changed p" for p
    using that unfolding setO' changed_def by blast
  have changed_N: "p \<in> set ?N" "p \<notin> ?C'" "inBounds p" if "changed p" for p
    using that Nin unfolding changed_def by blast+
  have unchanged_old: "p \<in> set rest \<or> p \<in> ?C'" if "p \<in> set ?O' \<union> ?C'" "\<not> changed p" for p
    using that new_changed by blast
  have old: "set rest \<union> ?C' = set opn \<union> C" using setRest cO by auto
  have le: "?G' p \<le> ?G p" if "inBounds p" for p
  proof (cases "changed p")
    case True
    show ?thesis
    proof (cases "p \<in> set rest")
      case True
      with \<open>changed p\<close> have "?G c + 1 < ?G p" by (simp add: changed_def)
      then show ?thesis using \<open>changed p\<close> by (simp add: cell')
    next
      case False
      then have "p \<notin> set opn \<union> C" using changed_N(2)[OF True] old by blast
      then have "?G p = \<infinity>" using finI that by blast
      then show ?thesis by simp
    qed
  next
    case False
    then show ?thesis by (simp add: cell')
  qed
  have sl': "sameLayout g0 ?g'"
    unfolding sameLayout_def using wf0 wf' sameLayout_flags[OF sl] by (simp add: cell')
  have dO': "distinct ?O'" unfolding O' using dRest getNeighbors_distinct by auto
  have dV': "distinct (V @ [c])" using dV cC CV by simp
  have CV': "?C' = set (V @ [c])" using CV by simp
  have disj': "set ?O' \<inter> ?C' = {}" unfolding setO' using setRest disj by auto
  have sub': "set ?O' \<union> ?C' \<subseteq> {p. inBounds p}"
    unfolding setO' using setRest sub Nin cIB by auto
  have sIn': "s \<in> set ?O' \<or> s \<in> ?C'" using sIn old unfolding setO' by blast
  have sIB: "inBounds s" and Gs: "?G s = 0" and ps: "parent (cell g s) = None"
    using tree by (simp_all add: treeInv_def)
  have s_unchanged: "\<not> changed s"
  proof
    assume ch: "changed s"
    then have "s \<notin> ?C'" by (simp add: changed_def)
    then have "s \<in> set rest" using sIn old by blast
    with ch have "?G c + 1 < ?G s" by (simp add: changed_def)
    then show False by (simp add: Gs)
  qed
  have cells: "cell ?g' s = cell g s" using s_unchanged by (simp add: cell')
  have tree': "treeInv g0 s ?g' ?C'"
    unfolding treeInv_def
  proof (intro conjI allI impI)
    show "inBounds s" by (rule sIB)
    show "?G' s = 0" by (simp add: cells Gs)
    show "parent (cell ?g' s) = None" by (simp add: cells ps)
    fix p assume a: "inBounds p \<and> p \<noteq> s \<and> ?G' p \<noteq> \<infinity>"
    show "\<exists>q \<in> ?C'. inBounds q \<and> parent (cell ?g' p) = Some q \<and>
            p \<in> set (getNeighbors (cell g0 q) g0) \<and> ?G' p = ?G' q + 1"
    proof (cases "changed p")
      case True
      then have "parent (cell ?g' p) = Some c" "?G' p = ?G c + 1" by (simp_all add: cell')
      moreover have "?G' c = ?G c" using frozen[of c] by simp
      ultimately show ?thesis using changed_N(1)[OF True] cIB by auto
    next
      case False
      then have same: "cell ?g' p = cell g p" by (simp add: cell')
      from a same have "inBounds p" "p \<noteq> s" "?G p \<noteq> \<infinity>" by simp_all
      from treeInv_parent[OF tree this]
      obtain q where q: "q \<in> C" "inBounds q" "parent (cell g p) = Some q"
        "p \<in> set (getNeighbors (cell g0 q) g0)" "?G p = ?G q + 1"
        by blast
      have "cell ?g' q = cell g q" using frozen q(1) by simp
      then show ?thesis using q same by auto
    qed
  qed
  have closed_nbr: "?G r \<le> ?G c + 1" if r: "r \<in> set ?N" "r \<in> C" for r
  proof -
    have rIB: "inBounds r" using r(1) Nin by blast
    have "?G r \<noteq> \<infinity>" using finI rIB r(2) by blast
    then obtain j where j: "?G r = enat j" by (cases "?G r") auto
    have "?F r \<le> ?F c" using mono r(2) cO by blast
    moreover have "?F r = enat (j + md r e)" using fI r(2) by (simp add: j)
    ultimately have "j + md r e \<le> k + md c e" by (simp add: Fc)
    moreover have "md c e \<le> md r e + 1" by (rule md_adjacent(1)[OF Nadj[OF r(1)]])
    ultimately have "j \<le> Suc k" by simp
    then show ?thesis by (simp add: j t)
  qed
  have rel': "relaxedInv g0 ?g' ?C' (set ?O')"
    unfolding relaxedInv_def
  proof (intro ballI conjI)
    fix q r assume q: "q \<in> ?C'" and r: "r \<in> set (getNeighbors (cell g0 q) g0)"
    have qIB: "inBounds q" using q sub cIB by auto
    have rIB: "inBounds r" using neighbor_inBounds(1)[OF wf0 qIB r] .
    have Gq: "?G' q = ?G q" using frozen[OF q] by simp
    show "r \<in> ?C' \<union> set ?O'"
    proof (cases "q = c")
      case True
      then show ?thesis using r unfolding setO' by blast
    next
      case False
      then have "r \<in> C \<union> set opn" using rel q r by (auto simp: relaxedInv_def)
      then show ?thesis using old unfolding setO' by blast
    qed
    show "?G' r \<le> ?G' q + 1"
    proof (cases "q = c")
      case True
      show ?thesis
      proof (cases "changed r")
        case True
        then show ?thesis using \<open>q = c\<close> Gq by (simp add: cell')
      next
        case False
        then have same: "?G' r = ?G r" by (simp add: cell')
        have rN: "r \<in> set ?N" using r \<open>q = c\<close> by simp
        have "r \<noteq> c" using rN cN by blast
        have "?G r \<le> ?G c + 1"
        proof (cases "r \<in> C")
          case True
          then show ?thesis by (rule closed_nbr[OF rN])
        next
          case False
          with \<open>\<not> changed r\<close> rN \<open>r \<noteq> c\<close> have "\<not> ?G c + 1 < ?G r"
            by (auto simp: changed_def)
          then show ?thesis by simp
        qed
        then show ?thesis using same Gq \<open>q = c\<close> by simp
      qed
    next
      case False
      then have qC: "q \<in> C" using q by simp
      have "?G' r \<le> ?G r" by (rule le[OF rIB])
      also have "\<dots> \<le> ?G q + 1" using rel qC r by (auto simp: relaxedInv_def)
      finally show ?thesis using Gq by simp
    qed
  qed
  have finI': "\<forall>p. inBounds p \<longrightarrow> (?G' p \<noteq> \<infinity> \<longleftrightarrow> p \<in> set ?O' \<union> ?C')"
  proof (intro allI impI)
    fix p assume pIB: "inBounds p"
    show "?G' p \<noteq> \<infinity> \<longleftrightarrow> p \<in> set ?O' \<union> ?C'"
    proof (cases "changed p")
      case True
      then have "?G' p = enat (Suc k)" by (simp add: cell' t)
      then show ?thesis using changed_O'[OF True] by simp
    next
      case False
      then have "?G' p = ?G p" by (simp add: cell')
      moreover have "p \<in> set ?O' \<union> ?C' \<longleftrightarrow> p \<in> set opn \<union> C"
        using unchanged_old[OF _ False] old unfolding setO' by blast
      ultimately show ?thesis using finI[rule_format, OF pIB] by simp
    qed
  qed
  have fI': "\<forall>p \<in> set ?O' \<union> ?C'. ?F' p = ?G' p + enat (md p e)"
  proof
    fix p assume p: "p \<in> set ?O' \<union> ?C'"
    show "?F' p = ?G' p + enat (md p e)"
    proof (cases "changed p")
      case True
      then show ?thesis by (simp add: cell')
    next
      case False
      then have "p \<in> set opn \<union> C" using unchanged_old[OF p False] old by blast
      then show ?thesis using fI False by (simp add: cell')
    qed
  qed
  have cEnd': "\<forall>q \<in> ?C'. \<not> isEnd (cell ?g' q)"
    using cEnd notEnd frozen by auto
  have mono': "\<forall>q \<in> ?C'. \<forall>u \<in> set ?O'. ?F' q \<le> ?F' u"
  proof (intro ballI)
    fix q u assume q: "q \<in> ?C'" and u: "u \<in> set ?O'"
    have "?F' q = ?F q" using frozen[OF q] by simp
    moreover have "?F q \<le> ?F c" using q mono cO by auto
    moreover have "?F c \<le> ?F' u"
    proof (cases "changed u")
      case True
      have "md c e \<le> md u e + 1" by (rule md_adjacent(1)[OF Nadj[OF changed_N(1)[OF True]]])
      then have "enat (k + md c e) \<le> enat (Suc k + md u e)" by simp
      then show ?thesis using True by (simp add: cell' t Fc)
    next
      case False
      then have "u \<in> set rest" using new_changed u by blast
      then have "u \<in> set opn" using setRest by simp
      then show ?thesis using fmin False by (simp add: cell')
    qed
    ultimately show "?F' q \<le> ?F' u" by simp
  qed
  show ?thesis
    unfolding aStarInv_def
    using sl' eIB dO' dV' CV' disj' sub' sIn' tree' rel' finI' fI' cEnd' mono' by blast
qed

subsection \<open>A*: the loop returns, and what it returns\<close>

lemma finite_inBounds: "finite {p. inBounds p}"
proof -
  have "{p. inBounds p} \<subseteq> {..<GRID_COLS} \<times> {..<GRID_ROWS}"
    by (auto simp: inBounds_def)
  then show ?thesis by (rule finite_subset) simp
qed

lemma aStar_reach:
  assumes inv: "aStarInv g0 s e g opn C V" and path: "pathBetween g0 s p ps"
  shows "p \<in> C \<or> (\<exists>q m. q \<in> set opn \<and> gScore (cell g q) \<le> enat m \<and> m + md q p \<le> length ps - 1)"
proof -
  from inv have sl: "sameLayout g0 g" and sub: "set opn \<union> C \<subseteq> {p. inBounds p}"
    and sIn: "s \<in> set opn \<or> s \<in> C" and tree: "treeInv g0 s g C"
    and rel: "relaxedInv g0 g C (set opn)"
    unfolding aStarInv_def by blast+
  have wf0: "wfGrid g0" using sl by (rule sameLayout_wf)
  have sIB: "inBounds s" and Gs: "gScore (cell g s) = 0" using tree by (simp_all add: treeInv_def)
  have Din: "C \<subseteq> {p. inBounds p}" using sub by blast
  have sIn': "s \<in> C \<or> s \<in> set opn" using sIn by blast
  from frontier[OF wf0 rel Din sIB sIn' Gs path] show ?thesis by blast
qed

lemma aStar_visited_not_end:
  assumes inv: "aStarInv g0 s e g opn C V"
    and endp: "\<forall>p. inBounds p \<longrightarrow> (isEnd (cell g0 p) \<longleftrightarrow> p = e)"
  shows "\<forall>q \<in> set V. inBounds q \<and> q \<noteq> e"
proof
  fix q assume q: "q \<in> set V"
  from inv have sl: "sameLayout g0 g" and CV: "C = set V"
    and sub: "set opn \<union> C \<subseteq> {p. inBounds p}"
    and cEnd: "\<forall>q \<in> C. \<not> isEnd (cell g q)"
    unfolding aStarInv_def by blast+
  have qIB: "inBounds q" using q sub CV by blast
  have "\<not> isEnd (cell g0 q)" using cEnd q CV sameLayout_flags(3)[OF sl qIB] by simp
  then show "inBounds q \<and> q \<noteq> e" using qIB endp by blast
qed

lemma aStar_route:
  assumes inv: "aStarInv g0 s e g opn C V" and q: "q \<in> set opn \<union> C"
  shows "\<exists>bs j. gScore (cell g q) = enat j \<and> followsParents g bs \<and> hd bs = q \<and>
           length bs = Suc j \<and> pathBetween g0 s q (rev bs)"
proof -
  from inv have sub: "set opn \<union> C \<subseteq> {p. inBounds p}" and tree: "treeInv g0 s g C"
    and finI: "\<forall>p. inBounds p \<longrightarrow> (gScore (cell g p) \<noteq> \<infinity> \<longleftrightarrow> p \<in> set opn \<union> C)"
    unfolding aStarInv_def by blast+
  have qIB: "inBounds q" using q sub by blast
  have "gScore (cell g q) \<noteq> \<infinity>" using finI qIB q by blast
  then obtain j where j: "gScore (cell g q) = enat j" by (cases "gScore (cell g q)") auto
  from treeInv_chain[OF tree qIB j] obtain bs where bs: "followsParents g bs" "hd bs = q"
      "last bs = s" "length bs = Suc j" "validPath g0 (rev bs)"
    by blast
  have bne: "bs \<noteq> []" using bs(4) by auto
  have "pathBetween g0 s q (rev bs)"
    unfolding pathBetween_def using bs bne by (simp add: hd_rev last_rev)
  then show ?thesis using j bs by blast
qed

lemma aStar_exhausted:
  assumes inv: "aStarInv g0 s e g [] C V"
    and endp: "\<forall>p. inBounds p \<longrightarrow> (isEnd (cell g0 p) \<longleftrightarrow> p = e)"
  shows "searchPost g0 s e (Exhausted V) \<and>
         (\<forall>q \<in> set (visitedOf (Exhausted V)). shortRoute g0 s (Exhausted V) q)"
proof -
  from inv have dV: "distinct V" and CV: "C = set V" unfolding aStarInv_def by blast+
  note ne = aStar_visited_not_end[OF inv endp]
  have "\<not> pathBetween g0 s e ps" for ps
    using aStar_reach[OF inv, of e ps] ne CV by auto
  moreover have "shortRoute g0 s (Exhausted V) q" if "q \<in> set V" for q
    using aStar_route[OF inv, of q] that CV by (auto simp: shortRoute_def)
  ultimately show ?thesis using dV ne by (simp add: searchPost_def)
qed

lemma aStar_found:
  assumes inv: "aStarInv g0 s e g opn C V" and ne: "opn \<noteq> []"
    and endp: "\<forall>p. inBounds p \<longrightarrow> (isEnd (cell g0 p) \<longleftrightarrow> p = e)"
  defines "c \<equiv> hd (sort_key (\<lambda>n. fScore (cell g n)) opn)"
  assumes isE: "isEnd (cell g c)"
  shows "\<exists>path. reconstructPath g c = Some path \<and> searchPost g0 s e (Found V path g) \<and>
         (\<forall>q \<in> set V. shortRoute g0 s (Found V path g) q)"
proof -
  let ?G = "\<lambda>p. gScore (cell g p)" and ?F = "\<lambda>p. fScore (cell g p)"
  from inv have sl: "sameLayout g0 g" and dV: "distinct V" and CV: "C = set V"
    and disj: "set opn \<inter> C = {}" and sub: "set opn \<union> C \<subseteq> {p. inBounds p}"
    and fI: "\<forall>p \<in> set opn \<union> C. ?F p = ?G p + enat (md p e)"
    and mono: "\<forall>q \<in> C. \<forall>u \<in> set opn. ?F q \<le> ?F u"
    unfolding aStarInv_def by blast+
  have cO: "c \<in> set opn" and fmin: "\<forall>u \<in> set opn. ?F c \<le> ?F u"
    unfolding c_def using sort_key_hd_min[OF ne, of ?F] by blast+
  have cIB: "inBounds c" using cO sub by blast
  have ce: "c = e" using isE sameLayout_flags(3)[OF sl cIB] endp cIB by blast
  from aStar_route[OF inv, of c] cO obtain bs k where k: "?G c = enat k"
    and bs: "followsParents g bs" "hd bs = c" "length bs = Suc k" "pathBetween g0 s c (rev bs)"
    by blast
  have "md c e = 0" by (simp add: ce)
  moreover have "?F c = ?G c + enat (md c e)" using fI cO by blast
  ultimately have Fc: "?F c = enat k" by (simp add: k)
  have rp: "reconstructPath g c = Some (rev bs)"
    using reconstructPath_follows[OF bs(1)] bs(2) by simp
  note nend = aStar_visited_not_end[OF inv endp]
  have opt: "length (rev bs) \<le> length ps" if "pathBetween g0 s e ps" for ps
  proof -
    have pne: "ps \<noteq> []" using that by (simp add: pathBetween_def)
    have "e \<notin> C" using cO disj ce by blast
    with aStar_reach[OF inv that] obtain q m where
      q: "q \<in> set opn" "?G q \<le> enat m" "m + md q e \<le> length ps - 1"
      by blast
    have "?F q = ?G q + enat (md q e)" using fI q(1) by blast
    also have "\<dots> \<le> enat m + enat (md q e)" by (rule add_right_mono[OF q(2)])
    finally have "?F q \<le> enat (m + md q e)" by simp
    moreover have "?F c \<le> ?F q" using fmin q(1) by blast
    ultimately have "enat k \<le> enat (m + md q e)" unfolding Fc by (rule order_trans[rotated])
    then have "k \<le> length ps - 1" using q(3) by simp
    then show ?thesis using pne bs(3) by (cases ps) simp_all
  qed
  have short: "shortRoute g0 s (Found V (rev bs) g) q" if "q \<in> set V" for q
  proof -
    have qC: "q \<in> C" using that CV by simp
    from aStar_route[OF inv, of q] qC obtain cs j where j: "?G q = enat j"
      and cs: "length cs = Suc j" "pathBetween g0 s q (rev cs)"
      by blast
    have "q \<noteq> e" using nend that by blast
    then have "md q e \<noteq> 0" by (simp add: md_eq_0)
    moreover have "?F q \<le> ?F c" using mono qC cO by blast
    moreover have "?F q = enat (j + md q e)" using fI qC by (simp add: j)
    ultimately have "j < k" by (simp add: Fc)
    then have "length (rev cs) < length (rev bs)" using cs(1) bs(3) by simp
    then show ?thesis using cs(2) unfolding shortRoute_def by auto
  qed
  have "searchPost g0 s e (Found V (rev bs) g)"
    unfolding searchPost_def using sl bs(1,4) opt dV nend ce by simp
  then show ?thesis using rp short by blast
qed

lemma aStarLoop_correct:
  assumes endp: "\<forall>p. inBounds p \<longrightarrow> (isEnd (cell g0 p) \<longleftrightarrow> p = e)"
  shows "aStarInv g0 s e g opn C V \<Longrightarrow>
     \<exists>r. aStarLoop e g opn C V = Some r \<and> searchPost g0 s e r \<and>
         (\<forall>q \<in> set (visitedOf r). shortRoute g0 s r q)"
proof (induction "card ({p. inBounds p} - C)" arbitrary: g opn C V rule: less_induct)
  case less
  let ?F = "\<lambda>p. fScore (cell g p)"
  let ?c = "hd (sort_key ?F opn)"
  note inv = less.prems
  show ?case
  proof (cases "opn = []")
    case True
    have "aStarLoop e g opn C V = Some (Exhausted V)"
      by (subst aStarLoop.simps) (simp add: True)
    then show ?thesis using aStar_exhausted[OF inv[unfolded True] endp] by simp
  next
    case False
    show ?thesis
    proof (cases "isEnd (cell g ?c)")
      case True
      from aStar_found[OF inv False endp True] obtain path where
        p: "reconstructPath g ?c = Some path" "searchPost g0 s e (Found V path g)"
          "\<forall>q \<in> set V. shortRoute g0 s (Found V path g) q"
        by blast
      have "aStarLoop e g opn C V = Some (Found V path g)"
        by (subst aStarLoop.simps) (simp add: False True p(1) Let_def)
      then show ?thesis using p(2,3) by simp
    next
      case notEnd: False
      let ?C' = "insert ?c C"
      let ?st = "foldl (relaxAStar e ?c ?C') (g, tl (sort_key ?F opn)) (getNeighbors (cell g ?c) g)"
      have inv': "aStarInv g0 s e (fst ?st) (snd ?st) ?C' (V @ [?c])"
        by (rule aStar_step[OF inv False notEnd])
      from inv have disj: "set opn \<inter> C = {}" and sub: "set opn \<union> C \<subseteq> {p. inBounds p}"
        unfolding aStarInv_def by blast+
      have cO: "?c \<in> set opn" using sort_key_hd_min(1)[OF False, of ?F] .
      have "?c \<in> {p. inBounds p} - C" using cO disj sub by blast
      then have "{p. inBounds p} - ?C' \<subset> {p. inBounds p} - C" by blast
      then have "card ({p. inBounds p} - ?C') < card ({p. inBounds p} - C)"
        by (intro psubset_card_mono) (simp_all add: finite_inBounds)
      from less.hyps[OF this inv'] obtain r where
        r: "aStarLoop e (fst ?st) (snd ?st) ?C' (V @ [?c]) = Some r" "searchPost g0 s e r"
          "\<forall>q \<in> set (visitedOf r). shortRoute g0 s r q"
        by blast
      have "aStarLoop e g opn C V = aStarLoop e (fst ?st) (snd ?st) ?C' (V @ [?c])"
        by (subst aStarLoop.simps) (simp add: False notEnd Let_def)
      then show ?thesis using r by simp
    qed
  qed
qed

lemma aStarSearch_correct:
  assumes "stateInv st" "startNode st = Some s" "endNode st = Some e"
  shows "\<exists>r. aStarSearch (grid st) s e = Some r \<and> searchPost (grid st) s e r \<and>
         (\<forall>q \<in> set (visitedOf r). shortRoute (grid st) s r q)"
proof -
  note ep = stateInv_endpoints[OF assms]
  show ?thesis
    unfolding aStarSearch_def Let_def
    by (rule aStarLoop_correct[OF ep(4) aStarInv_init[OF ep(1,2,3), unfolded Let_def]])
qed

subsection \<open>From the searches to the runs\<close>

lemma runDijkstra_endpoints:
  assumes "startNode st = Some s" "endNode st = Some e"
  shows "runDijkstra st = map_option (finishRun ''Dijkstra'' st) (dijkstraSearch (grid st) s)"
  using assms by (simp add: runDijkstra_def)

lemma runAStar_endpoints:
  assumes "startNode st = Some s" "endNode st = Some e"
  shows "runAStar st = map_option (finishRun ''A*'' st) (aStarSearch (grid st) s e)"
  using assms by (simp add: runAStar_def)

lemma finishRun_Found:
  "finishRun name st (Found v p g) =
     Completed v p (fst (animateAlgorithm v p g name (st\<lparr>isAnimating := True\<rparr>)))
                   (snd (animateAlgorithm v p g name (st\<lparr>isAnimating := True\<rparr>)))"
  by (simp add: finishRun_def Let_def)

lemma finishRun_Exhausted:
  "finishRun name st (Exhausted v) = Failed NoPathFound (st\<lparr>isAnimating := False\<rparr>)"
  by (simp add: finishRun_def)

lemma finishRun_Completed_iff:
  "finishRun name st r = Completed v p fs st' \<longleftrightarrow>
     (\<exists>g. r = Found v p g \<and> fs = fst (animateAlgorithm v p g name (st\<lparr>isAnimating := True\<rparr>))
          \<and> st' = snd (animateAlgorithm v p g name (st\<lparr>isAnimating := True\<rparr>)))"
  by (cases r) (auto simp: finishRun_Found finishRun_Exhausted)

lemma animate_stats:
  "stats (snd (animateAlgorithm v p g name st)) =
     \<lparr> algorithm = name, nodesExplored = length v, pathLength = length p \<rparr>"
  by (simp add: animateAlgorithm_def Let_def)

lemma run_Completed_endpoints:
  assumes "runDijkstra st = Some (Completed v p fs st') \<or> runAStar st = Some (Completed v p fs st')"
  shows "\<exists>s e. startNode st = Some s \<and> endNode st = Some e"
  using assms
  by (cases "startNode st"; cases "endNode st") (auto simp: runDijkstra_def runAStar_def)

lemma validPath_adjacent:
  assumes wf: "wfGrid g"
  shows "validPath g ps \<Longrightarrow> inBounds (hd ps) \<Longrightarrow> Suc i < length ps \<Longrightarrow>
     ps ! Suc i \<in> set (getNeighbors (cell g (ps ! i)) g) \<and> adjacent4 (ps ! i) (ps ! Suc i)"
proof (induction ps arbitrary: i)
  case Nil
  then show ?case by simp
next
  case (Cons p ps)
  from Cons.prems(3) have ne: "ps \<noteq> []" by auto
  with Cons.prems(1) have n: "hd ps \<in> set (getNeighbors (cell g p) g)" and v: "validPath g ps"
    by (simp_all add: validPath_Cons)
  have pIB: "inBounds p" using Cons.prems(2) by simp
  have hIB: "inBounds (hd ps)" and adj: "adjacent4 p (hd ps)"
    using neighbor_inBounds(1,2)[OF wf pIB n] by simp_all
  show ?case
  proof (cases i)
    case 0
    then show ?thesis using n adj ne by (simp add: hd_conv_nth)
  next
    case (Suc j)
    then have "Suc j < length ps" using Cons.prems(3) by simp
    from Cons.IH[OF v hIB this] show ?thesis using Suc by simp
  qed
qed

lemma searchPost_same_limit:
  assumes "searchPost g0 s e r1" "searchPost g0 s e r2"
  shows "pathLimit r1 = pathLimit r2"
proof (cases r1; cases r2)
  fix v1 p1 g1 v2 p2 g2
  assume r: "r1 = Found v1 p1 g1" "r2 = Found v2 p2 g2"
  with assms have "pathBetween g0 s e p1" "pathBetween g0 s e p2"
    "\<forall>ps. pathBetween g0 s e ps \<longrightarrow> length p1 \<le> length ps"
    "\<forall>ps. pathBetween g0 s e ps \<longrightarrow> length p2 \<le> length ps"
    by (simp_all add: searchPost_def)
  then have "length p1 = length p2" by (meson le_antisym)
  then show ?thesis using r by simp
next
  fix v1 p1 g1 v2
  assume r: "r1 = Found v1 p1 g1" "r2 = Exhausted v2"
  with assms have "pathBetween g0 s e p1" "\<forall>ps. \<not> pathBetween g0 s e ps"
    by (simp_all add: searchPost_def)
  then show ?thesis by blast
next
  fix v1 v2 p2 g2
  assume r: "r1 = Exhausted v1" "r2 = Found v2 p2 g2"
  with assms have "pathBetween g0 s e p2" "\<forall>ps. \<not> pathBetween g0 s e ps"
    by (simp_all add: searchPost_def)
  then show ?thesis by blast
next
  fix v1 v2
  assume "r1 = Exhausted v1" "r2 = Exhausted v2"
  then show ?thesis by simp
qed

lemma searchPost_distinct: "searchPost g0 s e r \<Longrightarrow> distinct (visitedOf r)"
  by (cases r) (simp_all add: searchPost_def)

lemma row_route:
  assumes wf: "wfGrid g" and r: "r < GRID_ROWS"
  shows "a + n < GRID_COLS \<Longrightarrow> \<forall>x. a < x \<and> x \<le> a + n \<longrightarrow> \<not> isWall (cell g (x, r)) \<Longrightarrow>
     validPath g (map (\<lambda>x. (x, r)) [a..<Suc (a + n)])"
proof (induction n arbitrary: a)
  case 0
  then show ?case by simp
next
  case (Suc n)
  have split: "[a..<Suc (a + Suc n)] = a # [Suc a..<Suc (Suc a + n)]"
    by (simp add: upt_rec[of a])
  have v: "validPath g (map (\<lambda>x. (x, r)) [Suc a..<Suc (Suc a + n)])"
    using Suc.prems by (intro Suc.IH) auto
  have hd: "hd (map (\<lambda>x. (x, r)) [Suc a..<Suc (Suc a + n)]) = (Suc a, r)"
    by (simp add: upt_rec[of "Suc a"])
  have ne: "map (\<lambda>x. (x, r)) [Suc a..<Suc (Suc a + n)] \<noteq> []" by simp
  have ib: "inBounds (a, r)" "inBounds (Suc a, r)" using Suc.prems(1) r by (simp_all add: inBounds_def)
  have "\<not> isWall (cell g (Suc a, r))" using Suc.prems(2) by simp
  moreover have "adjacent4 (a, r) (Suc a, r)" by (simp add: adjacent4_def)
  ultimately have "(Suc a, r) \<in> set (getNeighbors (cell g (a, r)) g)"
    using getNeighbors_iff[OF wf ib(1)] ib(2) by blast
  then show ?case
    unfolding split list.map validPath_Cons using v hd ne by simp
qed

lemma searchPost_route_Found:
  assumes "searchPost g0 s e r" "pathBetween g0 s e route"
  shows "\<exists>v p g. r = Found v p g"
  using assms by (cases r) (auto simp: searchPost_def)

lemma initialState_endpoints:
  "startNode initialState = Some (5, 15)" "endNode initialState = Some (44, 15)"
  "grid initialState = initialGrid"
  by (simp_all add: initialState_def)

lemma initialState_route:
  "pathBetween (grid initialState) (5, 15) (44, 15) (map (\<lambda>x. (x, 15)) [5..<45])"
proof -
  have nowall: "\<forall>x. 5 < x \<and> x \<le> 5 + 39 \<longrightarrow> \<not> isWall (cell initialGrid (x, 15))"
    by (simp add: cell_initialGrid inBounds_def GRID_COLS_def GRID_ROWS_def initialNode_def)
  have "validPath initialGrid (map (\<lambda>x. (x, 15)) [5..<Suc (5 + 39)])"
    by (rule row_route[OF wfGrid_initialGrid _ _ nowall]) (simp_all add: GRID_COLS_def GRID_ROWS_def)
  then have v: "validPath initialGrid (map (\<lambda>x. (x, 15)) [5..<45])" by simp
  show ?thesis
    unfolding pathBetween_def initialState_endpoints(3) using v
    by (simp add: hd_map last_map upt_rec[of 5])
qed

lemma initialState_runs_complete:
  "\<exists>vD pD gD vA pA gA.
     dijkstraSearch (grid initialState) (5, 15) = Some (Found vD pD gD) \<and>
     aStarSearch (grid initialState) (5, 15) (44, 15) = Some (Found vA pA gA)"
proof -
  note se = initialState_endpoints(1,2)
  from dijkstraSearch_correct[OF stateInv_initialState se] obtain rD where
    rD: "dijkstraSearch (grid initialState) (5, 15) = Some rD"
      "searchPost (grid initialState) (5, 15) (44, 15) rD"
    by blast
  from aStarSearch_correct[OF stateInv_initialState se] obtain rA where
    rA: "aStarSearch (grid initialState) (5, 15) (44, 15) = Some rA"
      "searchPost (grid initialState) (5, 15) (44, 15) rA"
    by blast
  from searchPost_route_Found[OF rD(2) initialState_route]
    searchPost_route_Found[OF rA(2) initialState_route] rD(1) rA(1)
  show ?thesis by blast
qed

subsection \<open>The replay\<close>

lemma length_frames [simp]: "length (frames mark xs g) = length xs"
  by (induction xs arbitrary: g) simp_all

lemma frames_nth:
  "i < length xs \<Longrightarrow> frames mark xs g ! i = foldl mark g (take (Suc i) xs)"
proof (induction xs arbitrary: g i)
  case Nil
  then show ?case by simp
next
  case (Cons x xs)
  show ?case
  proof (cases i)
    case 0
    then show ?thesis by simp
  next
    case (Suc j)
    then have "j < length xs" using Cons.prems by simp
    from Cons.IH[OF this, of "mark g x"] show ?thesis using Suc by simp
  qed
qed

lemma frames_last:
  "xs \<noteq> [] \<Longrightarrow> last (frames mark xs g) = foldl mark g xs"
proof (induction xs arbitrary: g)
  case Nil
  then show ?case by simp
next
  case (Cons x xs)
  then show ?case by (cases xs) simp_all
qed

lemma mark_fold:
  assumes step: "\<And>g r q. wfGrid g \<Longrightarrow> inBounds r \<Longrightarrow>
             wfGrid (mark g r) \<and>
             cell (mark g r) q = (if q = r \<and> \<not> isStart (cell g r) \<and> \<not> isEnd (cell g r)
                                   then f (cell g r) else cell g q)"
    and f: "\<And>n. isStart (f n) = isStart n" "\<And>n. isEnd (f n) = isEnd n" "\<And>n. f (f n) = f n"
  shows "wfGrid g \<Longrightarrow> \<forall>r \<in> set xs. inBounds r \<Longrightarrow>
     wfGrid (foldl mark g xs) \<and>
     (\<forall>q. cell (foldl mark g xs) q =
        (if q \<in> set xs \<and> \<not> isStart (cell g q) \<and> \<not> isEnd (cell g q)
         then f (cell g q) else cell g q))"
proof (induction xs arbitrary: g)
  case Nil
  then show ?case by simp
next
  case (Cons x xs)
  have x: "inBounds x" and xs: "\<forall>r \<in> set xs. inBounds r" using Cons.prems(2) by simp_all
  note s = step[OF Cons.prems(1) x]
  have wf1: "wfGrid (mark g x)" using s by blast
  have c1: "cell (mark g x) q = (if q = x \<and> \<not> isStart (cell g x) \<and> \<not> isEnd (cell g x)
                                   then f (cell g x) else cell g q)" for q
    using s by blast
  note IH = Cons.IH[OF wf1 xs]
  note IHc = IH[THEN conjunct2, rule_format]
  show ?case
  proof (intro conjI allI)
    show "wfGrid (foldl mark g (x # xs))" using IH by simp
    fix q
    show "cell (foldl mark g (x # xs)) q =
         (if q \<in> set (x # xs) \<and> \<not> isStart (cell g q) \<and> \<not> isEnd (cell g q)
          then f (cell g q) else cell g q)"
      by (auto simp: IHc c1 f)
  qed
qed

lemma markVisited_step:
  assumes "wfGrid g" "inBounds r"
  shows "wfGrid (markVisited g r) \<and>
         cell (markVisited g r) q = (if q = r \<and> \<not> isStart (cell g r) \<and> \<not> isEnd (cell g r)
                                     then (cell g r)\<lparr>isVisited := True\<rparr> else cell g q)"
proof -
  have co: "(node_x (cell g r), node_y (cell g r)) = r"
    using wfGrid_coords[OF assms] by (simp add: prod_eq_iff)
  have "wfGrid (upd g r (\<lambda>n. n\<lparr>isVisited := True\<rparr>))" by (rule wfGrid_upd[OF assms]) simp_all
  then show ?thesis
    using assms(1) by (simp add: markVisited_def Let_def co cell_upd[OF assms])
qed

lemma markPath_step:
  assumes "wfGrid g" "inBounds r"
  shows "wfGrid (markPath g r) \<and>
         cell (markPath g r) q = (if q = r \<and> \<not> isStart (cell g r) \<and> \<not> isEnd (cell g r)
                                  then (cell g r)\<lparr>isPath := True\<rparr> else cell g q)"
proof -
  have co: "(node_x (cell g r), node_y (cell g r)) = r"
    using wfGrid_coords[OF assms] by (simp add: prod_eq_iff)
  have "wfGrid (upd g r (\<lambda>n. n\<lparr>isPath := True\<rparr>))" by (rule wfGrid_upd[OF assms]) simp_all
  then show ?thesis
    using assms(1) by (simp add: markPath_def Let_def co cell_upd[OF assms])
qed

lemma markVisited_fold:
  assumes "wfGrid g" "\<forall>r \<in> set xs. inBounds r"
  shows "wfGrid (foldl markVisited g xs)"
    and "cell (foldl markVisited g xs) q =
        (if q \<in> set xs \<and> \<not> isStart (cell g q) \<and> \<not> isEnd (cell g q)
         then (cell g q)\<lparr>isVisited := True\<rparr> else cell g q)"
proof -
  have m: "wfGrid (foldl markVisited g xs) \<and>
     (\<forall>q. cell (foldl markVisited g xs) q =
        (if q \<in> set xs \<and> \<not> isStart (cell g q) \<and> \<not> isEnd (cell g q)
         then (cell g q)\<lparr>isVisited := True\<rparr> else cell g q))"
    by (rule mark_fold[where f = "\<lambda>n. n\<lparr>isVisited := True\<rparr>", OF markVisited_step _ _ _ assms]) simp_all
  show "wfGrid (foldl markVisited g xs)" using m by blast
  show "cell (foldl markVisited g xs) q =
        (if q \<in> set xs \<and> \<not> isStart (cell g q) \<and> \<not> isEnd (cell g q)
         then (cell g q)\<lparr>isVisited := True\<rparr> else cell g q)"
    using m by blast
qed

lemma markPath_fold:
  assumes "wfGrid g" "\<forall>r \<in> set xs. inBounds r"
  shows "wfGrid (foldl markPath g xs)"
    and "cell (foldl markPath g xs) q =
        (if q \<in> set xs \<and> \<not> isStart (cell g q) \<and> \<not> isEnd (cell g q)
         then (cell g q)\<lparr>isPath := True\<rparr> else cell g q)"
proof -
  have m: "wfGrid (foldl markPath g xs) \<and>
     (\<forall>q. cell (foldl markPath g xs) q =
        (if q \<in> set xs \<and> \<not> isStart (cell g q) \<and> \<not> isEnd (cell g q)
         then (cell g q)\<lparr>isPath := True\<rparr> else cell g q))"
    by (rule mark_fold[where f = "\<lambda>n. n\<lparr>isPath := True\<rparr>", OF markPath_step _ _ _ assms]) simp_all
  show "wfGrid (foldl markPath g xs)" using m by blast
  show "cell (foldl markPath g xs) q =
        (if q \<in> set xs \<and> \<not> isStart (cell g q) \<and> \<not> isEnd (cell g q)
         then (cell g q)\<lparr>isPath := True\<rparr> else cell g q)"
    using m by blast
qed

lemma animate_frames:
  "fst (animateAlgorithm v p g name st) =
     frames markVisited v g @ frames markPath p (foldl markVisited g v)"
  by (simp add: animateAlgorithm_def Let_def)

lemma animate_frame_visited:
  assumes "i < length v"
  shows "fst (animateAlgorithm v p g name st) ! i = foldl markVisited g (take (Suc i) v)"
  using assms by (simp add: animate_frames nth_append frames_nth)

lemma animate_frame_path:
  assumes "j < length p"
  shows "fst (animateAlgorithm v p g name st) ! (length v + j) =
           foldl markPath (foldl markVisited g v) (take (Suc j) p)"
  using assms by (simp add: animate_frames nth_append frames_nth)

subsection \<open>Start and end on one cell; searches that find nothing\<close>

lemma stateInv_withTool [simp]: "stateInv (withTool t st) = stateInv st"
  by (simp add: stateInv_def withTool_def)

lemma reconstructPath_root:
  "parent (cell g p) = None \<Longrightarrow> reconstructPath g p = Some [p]"
  using reconstructPath_follows[of g "[p]"] by simp

lemma dijkstraSearch_same_cell:
  assumes wf0: "wfGrid g0" and p: "inBounds p" and e: "isEnd (cell g0 p)"
  shows "\<exists>g. dijkstraSearch g0 p = Some (Found [] [p] g) \<and> sameLayout g0 g"
proof -
  define newGrid where "newGrid = upd (upd (map (map (\<lambda>node. node\<lparr>isVisited := False,
      isPath := False, gScore := \<infinity>, fScore := \<infinity>, parent := None\<rparr>)) g0)
      p (\<lambda>n. n\<lparr>gScore := 0\<rparr>)) p (\<lambda>n. n\<lparr>fScore := 0\<rparr>)"
  note ng = dijkstra_newGrid[OF wf0 p, folded newGrid_def]
  let ?G = "\<lambda>n. gScore (cell newGrid n)"
  have inv: "dijkstraInv g0 p newGrid (flat newGrid) []"
    unfolding newGrid_def by (rule dijkstraInv_init[OF wf0 p])
  then have sl: "sameLayout g0 newGrid" by (simp add: dijkstraInv_def)
  have pin: "p \<in> set (flat newGrid)" using p by (simp add: set_flat[OF ng(1)])
  have "\<forall>y \<in> set (flat newGrid). y \<noteq> p \<longrightarrow> ?G p < ?G y"
    using p by (simp add: set_flat[OF ng(1)] ng(2))
  from sort_key_hd_unique[OF pin this] have hd: "hd (sort_key ?G (flat newGrid)) = p" .
  have ne: "flat newGrid \<noteq> []" using pin by auto
  have Gp: "?G p \<noteq> \<infinity>" using p by (simp add: ng(2) zero_enat_def)
  have ep: "isEnd (cell newGrid p)" using e p by (simp add: ng(2))
  have "parent (cell newGrid p) = None" using p by (simp add: ng(2))
  then have rp: "reconstructPath newGrid p = Some [p]" by (rule reconstructPath_root)
  have "dijkstraLoop newGrid (flat newGrid) [] = Some (Found [] [p] newGrid)"
    by (subst dijkstraLoop.simps) (simp add: ne hd Gp ep rp Let_def)
  then have "dijkstraSearch g0 p = Some (Found [] [p] newGrid)"
    unfolding dijkstraSearch_def newGrid_def Let_def .
  then show ?thesis using sl by blast
qed

lemma aStarSearch_same_cell:
  assumes wf0: "wfGrid g0" and p: "inBounds p" and e: "isEnd (cell g0 p)"
  shows "\<exists>g. aStarSearch g0 p p = Some (Found [] [p] g) \<and> sameLayout g0 g"
proof -
  define newGrid where "newGrid =
     (let newGrid0 = map (map (\<lambda>node. node\<lparr>isVisited := False, isPath := False,
                                            gScore := \<infinity>, hScore := 0, fScore := \<infinity>,
                                            parent := None\<rparr>)) g0;
          g1 = upd newGrid0 p (\<lambda>n. n\<lparr>gScore := 0\<rparr>);
          g2 = upd g1 p (\<lambda>n. n\<lparr>hScore := manhattanDistance n (cell g1 p)\<rparr>)
      in upd g2 p (\<lambda>n. n\<lparr>fScore := enat (hScore n)\<rparr>))"
  note ng = aStar_newGrid[OF wf0 p p, folded newGrid_def[unfolded Let_def]]
  have inv: "aStarInv g0 p p newGrid [p] {} []"
    unfolding newGrid_def by (rule aStarInv_init[OF wf0 p p])
  then have sl: "sameLayout g0 newGrid" by (simp add: aStarInv_def)
  have ep: "isEnd (cell newGrid p)" using e p by (simp add: ng(2))
  have "parent (cell newGrid p) = None" using p by (simp add: ng(2))
  then have rp: "reconstructPath newGrid p = Some [p]" by (rule reconstructPath_root)
  have "aStarLoop p newGrid [p] {} [] = Some (Found [] [p] newGrid)"
    by (subst aStarLoop.simps) (simp add: ep rp Let_def)
  then have "aStarSearch g0 p p = Some (Found [] [p] newGrid)"
    unfolding aStarSearch_def newGrid_def Let_def .
  then show ?thesis using sl by blast
qed

lemma animate_single_start:
  assumes sl: "sameLayout g0 g" and p: "inBounds p" and s: "isStart (cell g0 p)"
  shows "fst (animateAlgorithm [] [p] g name st) = [g]"
    and "grid (snd (animateAlgorithm [] [p] g name st)) = g"
proof -
  have "isStart (cell g p)" using sameLayout_flags(2)[OF sl p] s by simp
  then have m: "markPath g p = g" by (simp add: markPath_def)
  show "fst (animateAlgorithm [] [p] g name st) = [g]" by (simp add: animate_frames m)
  show "grid (snd (animateAlgorithm [] [p] g name st)) = g"
    by (simp add: animateAlgorithm_def Let_def m)
qed

lemma dijkstraLoop_empty: "dijkstraLoop g [] v = Some (Exhausted v)"
  by (subst dijkstraLoop.simps) simp

lemma dijkstraLoop_infinite:
  assumes "unvisited \<noteq> []"
    and "gScore (cell g (hd (sort_key (\<lambda>n. gScore (cell g n)) unvisited))) = \<infinity>"
  shows "dijkstraLoop g unvisited v = Some (Exhausted v)"
  using assms by (subst dijkstraLoop.simps) (simp add: Let_def)

lemma aStarLoop_empty: "aStarLoop e g [] C v = Some (Exhausted v)"
  by (subst aStarLoop.simps) simp

lemma run_NoPathFound_iff:
  assumes inv: "stateInv st" and se: "startNode st = Some s" "endNode st = Some e"
  shows "runDijkstra st = Some (Failed NoPathFound (st\<lparr>isAnimating := False\<rparr>))
           \<longleftrightarrow> (\<forall>route. \<not> pathBetween (grid st) s e route)"
    and "runAStar st = Some (Failed NoPathFound (st\<lparr>isAnimating := False\<rparr>))
           \<longleftrightarrow> (\<forall>route. \<not> pathBetween (grid st) s e route)"
proof -
  from dijkstraSearch_correct[OF inv se] obtain rD where
    rD: "dijkstraSearch (grid st) s = Some rD" "searchPost (grid st) s e rD"
    by blast
  from aStarSearch_correct[OF inv se] obtain rA where
    rA: "aStarSearch (grid st) s e = Some rA" "searchPost (grid st) s e rA"
    by blast
  show "runDijkstra st = Some (Failed NoPathFound (st\<lparr>isAnimating := False\<rparr>))
           \<longleftrightarrow> (\<forall>route. \<not> pathBetween (grid st) s e route)"
    using rD(2)
    by (cases rD)
       (auto simp: runDijkstra_endpoints[OF se] rD(1) finishRun_Found finishRun_Exhausted
          searchPost_def)
  show "runAStar st = Some (Failed NoPathFound (st\<lparr>isAnimating := False\<rparr>))
           \<longleftrightarrow> (\<forall>route. \<not> pathBetween (grid st) s e route)"
    using rA(2)
    by (cases rA)
       (auto simp: runAStar_endpoints[OF se] rA(1) finishRun_Found finishRun_Exhausted
          searchPost_def)
qed

lemma run_NoPathFound_state:
  assumes "runDijkstra st = Some (Failed NoPathFound st') \<or> runAStar st = Some (Failed NoPathFound st')"
  shows "st' = st\<lparr>isAnimating := False\<rparr>"
proof -
  have fin: "st' = st\<lparr>isAnimating := False\<rparr>"
    if "finishRun name st res = Failed NoPathFound st'" for name res
    using that by (cases res) (simp_all add: finishRun_Found finishRun_Exhausted)
  from assms show ?thesis
    by (cases "startNode st"; cases "endNode st")
       (auto simp: runDijkstra_def runAStar_def dest: fin)
qed

lemma isolated_no_route:
  assumes "getNeighbors (cell g s) g = []" "s \<noteq> e"
  shows "\<not> pathBetween g s e ps"
proof
  assume pb: "pathBetween g s e ps"
  then obtain qs where ps: "ps = s # qs" by (cases ps) (auto simp: pathBetween_def)
  have "qs = []" using pb assms(1) unfolding ps pathBetween_def by (cases qs) auto
  then show False using pb assms(2) by (simp add: ps pathBetween_def)
qed

subsection \<open>The example states\<close>

lemma sameCellExample_facts:
  "stateInv sameCellExample" "startNode sameCellExample = Some (5, 15)"
  "endNode sameCellExample = Some (5, 15)"
proof -
  show "stateInv sameCellExample"
    unfolding sameCellExample_def
    by (rule stateInv_handleCanvasClick) (simp add: stateInv_initialState)
  show "startNode sameCellExample = Some (5, 15)" "endNode sameCellExample = Some (5, 15)"
    by (simp_all add: sameCellExample_def handleCanvasClick_def withTool_def initialState_def
        Let_def GRID_COLS_def GRID_ROWS_def)
qed

lemma handleCanvasClick_wall:
  assumes inv: "stateInv st" and idle: "\<not> isAnimating st" and tool: "selectedTool st = ToolWall"
    and rng: "0 \<le> cx" "cx < int GRID_COLS" "0 \<le> cy" "cy < int GRID_ROWS"
    and free: "startNode st \<noteq> Some (nat cx, nat cy)" "endNode st \<noteq> Some (nat cx, nat cy)"
  shows "handleCanvasClick st cx cy =
           st\<lparr>grid := upd (grid st) (nat cx, nat cy) (\<lambda>n. n\<lparr>isWall := \<not> isWall n\<rparr>)\<rparr>"
proof -
  have r: "\<not> (cx < 0 \<or> cx \<ge> int GRID_COLS \<or> cy < 0 \<or> cy \<ge> int GRID_ROWS)"
    using rng by linarith
  have c: "inBounds (nat cx, nat cy)" by (rule inBounds_click[OF r])
  have "\<not> isStart (cell (grid st) (nat cx, nat cy)) \<and> \<not> isEnd (cell (grid st) (nat cx, nat cy))"
    using inv[unfolded stateInv_iff] c free by blast
  then show ?thesis
    using idle tool r by (simp add: handleCanvasClick_def map_map_ident Let_def)
qed

lemma handleCanvasClick_start:
  assumes idle: "\<not> isAnimating st" and tool: "selectedTool st = ToolStart"
    and rng: "0 \<le> cx" "cx < int GRID_COLS" "0 \<le> cy" "cy < int GRID_ROWS"
    and old: "startNode st = Some s"
  shows "handleCanvasClick st cx cy =
           st\<lparr>grid := upd (upd (upd (grid st) s (\<lambda>n. n\<lparr>isStart := False\<rparr>))
                            (nat cx, nat cy) (\<lambda>n. n\<lparr>isStart := True\<rparr>))
                          (nat cx, nat cy) (\<lambda>n. n\<lparr>isWall := False\<rparr>),
              startNode := Some (nat cx, nat cy)\<rparr>"
proof -
  have r: "\<not> (cx < 0 \<or> cx \<ge> int GRID_COLS \<or> cy < 0 \<or> cy \<ge> int GRID_ROWS)"
    using rng by linarith
  show ?thesis
    using idle tool r old by (simp add: handleCanvasClick_def map_map_ident Let_def)
qed

lemma blockedExample_facts:
  "stateInv blockedExample" "startNode blockedExample = Some (0, 0)"
  "endNode blockedExample = Some (44, 15)"
  "getNeighbors (cell (grid blockedExample) (0, 0)) (grid blockedExample) = []"
proof -
  define A where "A = handleCanvasClick (withTool ToolStart initialState) 0 0"
  define B where "B = handleCanvasClick (withTool ToolWall A) 1 0"
  have bl: "blockedExample = handleCanvasClick B 0 1"
    by (simp add: blockedExample_def A_def B_def)
  have rng: "(0::int) \<le> 0" "(0::int) < int GRID_COLS" "(0::int) < int GRID_ROWS"
    "(0::int) \<le> 1" "(1::int) < int GRID_COLS" "(1::int) < int GRID_ROWS"
    by (simp_all add: GRID_COLS_def GRID_ROWS_def)
  have A: "A = (withTool ToolStart initialState)
      \<lparr>grid := upd (upd (upd initialGrid (5, 15) (\<lambda>n. n\<lparr>isStart := False\<rparr>))
                            (0, 0) (\<lambda>n. n\<lparr>isStart := True\<rparr>))
                          (0, 0) (\<lambda>n. n\<lparr>isWall := False\<rparr>),
       startNode := Some (0, 0)\<rparr>"
    unfolding A_def
    using handleCanvasClick_start[of "withTool ToolStart initialState" 0 0 "(5, 15)"] rng
    by (simp add: withTool_def initialState_def)
  have invA: "stateInv A" unfolding A_def
    by (rule stateInv_handleCanvasClick) (simp add: stateInv_initialState)
  have seA: "startNode A = Some (0, 0)" "endNode A = Some (44, 15)" "\<not> isAnimating A"
    by (simp_all add: A withTool_def initialState_def)
  have tA0: "stateInv (withTool ToolWall A)" using invA by simp
  have tA: "stateInv (withTool ToolWall A)" "\<not> isAnimating (withTool ToolWall A)"
    "selectedTool (withTool ToolWall A) = ToolWall"
    "startNode (withTool ToolWall A) \<noteq> Some (nat 1, nat 0)"
    "endNode (withTool ToolWall A) \<noteq> Some (nat 1, nat 0)"
    "grid (withTool ToolWall A) = grid A"
    using tA0 seA by (simp_all add: withTool_def[of ToolWall A] del: stateInv_withTool)
  have B: "B = (withTool ToolWall A)\<lparr>grid := upd (grid A) (1, 0) (\<lambda>n. n\<lparr>isWall := \<not> isWall n\<rparr>)\<rparr>"
    unfolding B_def
    using handleCanvasClick_wall[OF tA(1,2,3) rng(4,5,1,3) tA(4,5)] by (simp add: tA(6))
  have invB: "stateInv B" unfolding B_def
    by (rule stateInv_handleCanvasClick) (simp add: invA)
  have seB: "startNode B = Some (0, 0)" "endNode B = Some (44, 15)" "\<not> isAnimating B"
    "selectedTool B = ToolWall"
    using seA by (simp_all add: B withTool_def)
  have tB: "startNode B \<noteq> Some (nat 0, nat 1)" "endNode B \<noteq> Some (nat 0, nat 1)"
    using seB by simp_all
  have C: "blockedExample = B\<lparr>grid := upd (grid B) (0, 1) (\<lambda>n. n\<lparr>isWall := \<not> isWall n\<rparr>)\<rparr>"
    unfolding bl
    using handleCanvasClick_wall[OF invB seB(3,4) rng(1,2,4,6) tB] by simp
  show inv: "stateInv blockedExample" unfolding bl
    by (rule stateInv_handleCanvasClick[OF invB])
  show "startNode blockedExample = Some (0, 0)" "endNode blockedExample = Some (44, 15)"
    using seB by (simp_all add: C)
  have wfA: "wfGrid (grid A)" and wfB: "wfGrid (grid B)" and wfC: "wfGrid (grid blockedExample)"
    using invA invB inv by (simp_all add: stateInv_iff)
  have ib: "inBounds (0, 0)" "inBounds (1, 0)" "inBounds (0, 1)" "inBounds (5, 15)"
    by (simp_all add: inBounds_def GRID_COLS_def GRID_ROWS_def)
  have wf1: "wfGrid (upd initialGrid (5, 15) (\<lambda>n. n\<lparr>isStart := False\<rparr>))"
    by (rule wfGrid_upd[OF wfGrid_initialGrid ib(4)]) simp_all
  have wf2: "wfGrid (upd (upd initialGrid (5, 15) (\<lambda>n. n\<lparr>isStart := False\<rparr>))
                            (0, 0) (\<lambda>n. n\<lparr>isStart := True\<rparr>))"
    by (rule wfGrid_upd[OF wf1 ib(1)]) simp_all
  have nw: "\<not> isWall (cell initialGrid (1, 0))" "\<not> isWall (cell initialGrid (0, 1))"
    unfolding cell_initialGrid[OF ib(2)] cell_initialGrid[OF ib(3)]
    by (simp_all add: initialNode_def)
  have wA: "\<not> isWall (cell (grid A) (1, 0))" "\<not> isWall (cell (grid A) (0, 1))"
    using nw by (simp_all add: A cell_upd[OF wf2 ib(1)] cell_upd[OF wf1 ib(1)]
        cell_upd[OF wfGrid_initialGrid ib(4)])
  have ib': "inBounds (Suc 0, 0)" "inBounds (0, Suc 0)" using ib(2,3) by simp_all
  have wB: "isWall (cell (grid B) (1, 0))" "\<not> isWall (cell (grid B) (0, 1))"
    using wA by (simp_all add: B cell_upd[OF wfA ib'(1)])
  have wC: "isWall (cell (grid blockedExample) (1, 0))" "isWall (cell (grid blockedExample) (0, 1))"
    using wB by (simp_all add: C cell_upd[OF wfB ib'(2)])
  have co: "node_x (cell (grid blockedExample) (0, 0)) = 0"
    "node_y (cell (grid blockedExample) (0, 0)) = 0"
    using wfGrid_coords[OF wfC ib(1)] by simp_all
  show "getNeighbors (cell (grid blockedExample) (0, 0)) (grid blockedExample) = []"
    using wC by (simp add: getNeighbors_def co GRID_COLS_def GRID_ROWS_def)
qed

subsection \<open>The invariant holds in every reachable state\<close>

lemma stateInv_isAnimating [simp]: "stateInv (st\<lparr>isAnimating := b\<rparr>) = stateInv st"
  by (simp add: stateInv_def)

lemma stateInv_after_replay:
  assumes inv: "stateInv st" and se: "startNode st = Some s" "endNode st = Some e"
    and post: "searchPost (grid st) s e (Found v p g)"
  shows "stateInv (snd (animateAlgorithm v p g name (st\<lparr>isAnimating := True\<rparr>)))"
proof -
  note ep = stateInv_endpoints[OF inv se]
  from post have sl: "sameLayout (grid st) g" and pb: "pathBetween (grid st) s e p"
    and vIB: "\<forall>r \<in> set v. inBounds r"
    by (simp_all add: searchPost_def)
  have pne: "p \<noteq> []" using pb by (simp add: pathBetween_def)
  have pIB: "\<forall>r \<in> set p. inBounds r"
    using pb ep(2) validPath_inBounds[OF ep(1), of p] by (simp add: pathBetween_def)
  have wf: "wfGrid g" using sl by (rule sameLayout_wf)
  let ?g1 = "foldl markVisited g v"
  let ?g2 = "foldl markPath ?g1 p"
  have wf1: "wfGrid ?g1" by (rule markVisited_fold(1)[OF wf vIB])
  have wf2: "wfGrid ?g2" by (rule markPath_fold(1)[OF wf1 pIB])
  have c2: "isStart (cell ?g2 q) = isStart (cell (grid st) q) \<and>
            isEnd (cell ?g2 q) = isEnd (cell (grid st) q) \<and>
            isWall (cell ?g2 q) = isWall (cell (grid st) q)" if "inBounds q" for q
    using sameLayout_flags(1,2,3)[OF sl that]
    by (simp add: markPath_fold(2)[OF wf1 pIB] markVisited_fold(2)[OF wf vIB])
  have fin: "snd (animateAlgorithm v p g name (st\<lparr>isAnimating := True\<rparr>)) =
      st\<lparr>isAnimating := True, grid := ?g2,
         stats := \<lparr> algorithm = name, nodesExplored = length v, pathLength = length p \<rparr>,
         isAnimating := False\<rparr>"
  proof -
    have fne: "frames markPath p ?g1 \<noteq> []" using pne by (cases p) simp_all
    show ?thesis
      by (simp add: animateAlgorithm_def Let_def fne frames_last[OF pne])
  qed
  show ?thesis
    unfolding fin stateInv_iff using inv[unfolded stateInv_iff] wf2 c2 by (simp; blast)
qed

lemma stateInv_after_run:
  assumes inv: "stateInv st"
    and run: "runDijkstra st = Some out \<or> runAStar st = Some out"
  shows "stateInv (finalState out)"
proof (cases "\<exists>s e. startNode st = Some s \<and> endNode st = Some e")
  case False
  then have "startNode st = None \<or> endNode st = None"
    by (cases "startNode st"; cases "endNode st") auto
  then have "out = Failed MissingEndpoints st"
    using run by (cases "startNode st"; cases "endNode st") (auto simp: runDijkstra_def runAStar_def)
  then show ?thesis using inv by simp
next
  case True
  then obtain s e where se: "startNode st = Some s" "endNode st = Some e" by blast
  have fin: "stateInv (finalState (finishRun name st r))" if "searchPost (grid st) s e r" for name r
  proof (cases r)
    case (Found v p g)
    then show ?thesis
      using stateInv_after_replay[OF inv se that[unfolded Found]] by (simp add: finishRun_Found)
  next
    case (Exhausted v)
    then show ?thesis using inv by (simp add: finishRun_Exhausted)
  qed
  from run show ?thesis
  proof
    assume r: "runDijkstra st = Some out"
    from dijkstraSearch_correct[OF inv se] obtain res where
      res: "dijkstraSearch (grid st) s = Some res" "searchPost (grid st) s e res"
      by blast
    from r have "out = finishRun ''Dijkstra'' st res"
      by (simp add: runDijkstra_endpoints[OF se] res(1))
    then show ?thesis using fin[OF res(2)] by simp
  next
    assume r: "runAStar st = Some out"
    from aStarSearch_correct[OF inv se] obtain res where
      res: "aStarSearch (grid st) s e = Some res" "searchPost (grid st) s e res"
      by blast
    from r have "out = finishRun ''A*'' st res"
      by (simp add: runAStar_endpoints[OF se] res(1))
    then show ?thesis using fin[OF res(2)] by simp
  qed
qed

lemma reachable_stateInv: "reachable st \<Longrightarrow> stateInv st"
proof (induction rule: reachable.induct)
  case initial
  show ?case by (rule stateInv_initialState)
next
  case (tool st t)
  then show ?case by simp
next
  case (click st cx cy)
  then show ?case by (simp add: stateInv_handleCanvasClick)
next
  case (reset st)
  then show ?case by (simp add: stateInv_resetGrid)
next
  case (clear st)
  then show ?case by (intro stateInv_clearAll) (simp add: stateInv_iff)
next
  case (dijkstra st out)
  then show ?case by (intro stateInv_after_run[of st out]) simp_all
next
  case (aStar st out)
  then show ?case by (intro stateInv_after_run[of st out]) simp_all
qed

section \<open>The claims\<close>

subsection \<open>Claim C1: both searches find a shortest path\<close>

text \<open>
  C1.  In every state of the component in which start and end are set and some route
  leads from the start to the end (no wall separates them), \<open>runDijkstra\<close> and
  \<open>runAStar\<close> both complete; each returns a route from the start to the end that is
  no longer than any other route over the grid, so the two returned paths have the
  same length, and each run reports that length as \<open>pathLength\<close>.
\<close>

theorem both_searches_find_shortest_path:
  assumes "stateInv st" "startNode st = Some s" "endNode st = Some e"
    and "pathBetween (grid st) s e route"
  shows "\<exists>vD pD fD stD vA pA fA stA.
      runDijkstra st = Some (Completed vD pD fD stD) \<and>
      runAStar st = Some (Completed vA pA fA stA) \<and>
      pathBetween (grid st) s e pD \<and> pathBetween (grid st) s e pA \<and>
      (\<forall>ps. pathBetween (grid st) s e ps \<longrightarrow> length pD \<le> length ps \<and> length pA \<le> length ps) \<and>
      length pD = length pA \<and>
      pathLength (stats stD) = length pD \<and> pathLength (stats stA) = length pA"
proof -
  from dijkstraSearch_correct[OF assms(1-3)] obtain rD where
    rD: "dijkstraSearch (grid st) s = Some rD" "searchPost (grid st) s e rD"
    by blast
  from aStarSearch_correct[OF assms(1-3)] obtain rA where
    rA: "aStarSearch (grid st) s e = Some rA" "searchPost (grid st) s e rA"
    by blast
  obtain vD pD gD where fD: "rD = Found vD pD gD"
    using rD(2) assms(4) by (cases rD) (auto simp: searchPost_def)
  obtain vA pA gA where fA: "rA = Found vA pA gA"
    using rA(2) assms(4) by (cases rA) (auto simp: searchPost_def)
  have pD: "pathBetween (grid st) s e pD" "\<forall>ps. pathBetween (grid st) s e ps \<longrightarrow> length pD \<le> length ps"
    using rD(2) by (simp_all add: fD searchPost_def)
  have pA: "pathBetween (grid st) s e pA" "\<forall>ps. pathBetween (grid st) s e ps \<longrightarrow> length pA \<le> length ps"
    using rA(2) by (simp_all add: fA searchPost_def)
  have eq: "length pD = length pA" using pD pA by (meson le_antisym)
  let ?aD = "animateAlgorithm vD pD gD ''Dijkstra'' (st\<lparr>isAnimating := True\<rparr>)"
  let ?aA = "animateAlgorithm vA pA gA ''A*'' (st\<lparr>isAnimating := True\<rparr>)"
  have runD: "runDijkstra st = Some (Completed vD pD (fst ?aD) (snd ?aD))"
    by (simp add: runDijkstra_endpoints[OF assms(2,3)] rD(1) fD finishRun_Found)
  have runA: "runAStar st = Some (Completed vA pA (fst ?aA) (snd ?aA))"
    by (simp add: runAStar_endpoints[OF assms(2,3)] rA(1) fA finishRun_Found)
  have "pathLength (stats (snd ?aD)) = length pD" "pathLength (stats (snd ?aA)) = length pA"
    by (simp_all add: animate_stats)
  with runD runA pD pA eq show ?thesis by blast
qed

theorem both_searches_find_shortest_path_witness:
  "stateInv initialState \<and> startNode initialState = Some (5, 15)
   \<and> endNode initialState = Some (44, 15)
   \<and> pathBetween (grid initialState) (5, 15) (44, 15) (map (\<lambda>x. (x, 15)) [5..<45])
   \<and> (\<exists>vD pD fD stD vA pA fA stA.
        runDijkstra initialState = Some (Completed vD pD fD stD) \<and>
        runAStar initialState = Some (Completed vA pA fA stA) \<and>
        length pD = 40 \<and> length pA = 40 \<and>
        pathLength (stats stD) = 40 \<and> pathLength (stats stA) = 40)"
proof -
  note g = initialState_endpoints(3)
  note se = initialState_endpoints(1,2)
  note route = initialState_route
  from both_searches_find_shortest_path[OF stateInv_initialState se route]
  obtain vD pD fD stD vA pA fA stA where
    r: "runDijkstra initialState = Some (Completed vD pD fD stD)"
      "runAStar initialState = Some (Completed vA pA fA stA)"
      "pathBetween (grid initialState) (5, 15) (44, 15) pD"
      "\<forall>ps. pathBetween (grid initialState) (5, 15) (44, 15) ps \<longrightarrow>
          length pD \<le> length ps \<and> length pA \<le> length ps"
      "length pD = length pA"
      "pathLength (stats stD) = length pD" "pathLength (stats stA) = length pA"
    by blast
  have up: "length pD \<le> 40" using r(4) route by fastforce
  have "md (hd pD) (last pD) \<le> length pD - 1"
    using r(3) unfolding pathBetween_def g
    by (intro validPath_md[OF wfGrid_initialGrid]) (simp_all add: inBounds_def GRID_COLS_def GRID_ROWS_def)
  moreover have "md (hd pD) (last pD) = 39" using r(3) by (simp add: pathBetween_def md_def)
  ultimately have "length pD = 40" using up by simp
  with r(1,2,5,6,7) have "\<exists>vD pD fD stD vA pA fA stA.
        runDijkstra initialState = Some (Completed vD pD fD stD) \<and>
        runAStar initialState = Some (Completed vA pA fA stA) \<and>
        length pD = 40 \<and> length pA = 40 \<and>
        pathLength (stats stD) = 40 \<and> pathLength (stats stA) = 40"
    by auto
  then show ?thesis using stateInv_initialState se route by blast
qed

subsection \<open>Claim C2: A* explores no more cells than Dijkstra\<close>

text \<open>
  C2.  In every state of the component with start and end set, both search loops
  return, every cell in the visited-order list of A* is also in the visited-order list
  of Dijkstra, and so the number of cells A* explores is at most the number Dijkstra
  explores on the same grid.  When both runs complete, the \<open>nodesExplored\<close> statistic
  of the A* run is at most that of the Dijkstra run.
\<close>

theorem aStar_explores_no_more_than_dijkstra:
  assumes "stateInv st" "startNode st = Some s" "endNode st = Some e"
  shows "\<exists>rD rA.
      dijkstraSearch (grid st) s = Some rD \<and> aStarSearch (grid st) s e = Some rA \<and>
      runDijkstra st = Some (finishRun ''Dijkstra'' st rD) \<and>
      runAStar st = Some (finishRun ''A*'' st rA) \<and>
      set (visitedOf rA) \<subseteq> set (visitedOf rD) \<and>
      length (visitedOf rA) \<le> length (visitedOf rD) \<and>
      (\<forall>vD pD fD stD vA pA fA stA.
         finishRun ''Dijkstra'' st rD = Completed vD pD fD stD \<and>
         finishRun ''A*'' st rA = Completed vA pA fA stA \<longrightarrow>
           nodesExplored (stats stA) \<le> nodesExplored (stats stD))"
proof -
  from dijkstraSearch_correct[OF assms] obtain rD where
    rD: "dijkstraSearch (grid st) s = Some rD" "searchPost (grid st) s e rD"
      "\<forall>p. shortRoute (grid st) s rD p \<longrightarrow> p \<in> set (visitedOf rD)"
    by blast
  from aStarSearch_correct[OF assms] obtain rA where
    rA: "aStarSearch (grid st) s e = Some rA" "searchPost (grid st) s e rA"
      "\<forall>q \<in> set (visitedOf rA). shortRoute (grid st) s rA q"
    by blast
  have lim: "pathLimit rA = pathLimit rD" by (rule searchPost_same_limit[OF rA(2) rD(2)])
  have sub: "set (visitedOf rA) \<subseteq> set (visitedOf rD)"
  proof
    fix q assume "q \<in> set (visitedOf rA)"
    then have "shortRoute (grid st) s rA q" using rA(3) by blast
    then have "shortRoute (grid st) s rD q" by (simp add: shortRoute_def lim)
    then show "q \<in> set (visitedOf rD)" using rD(3) by blast
  qed
  have "length (visitedOf rA) = card (set (visitedOf rA))"
    using searchPost_distinct[OF rA(2)] by (simp add: distinct_card)
  also have "\<dots> \<le> card (set (visitedOf rD))" by (rule card_mono[OF _ sub]) simp
  also have "\<dots> \<le> length (visitedOf rD)" by (rule card_length)
  finally have len: "length (visitedOf rA) \<le> length (visitedOf rD)" .
  have stats: "nodesExplored (stats stA) \<le> nodesExplored (stats stD)"
    if "finishRun ''Dijkstra'' st rD = Completed vD pD fD stD"
       "finishRun ''A*'' st rA = Completed vA pA fA stA"
    for vD pD fD stD vA pA fA stA
  proof -
    from that(1) obtain gD where "rD = Found vD pD gD"
      "stD = snd (animateAlgorithm vD pD gD ''Dijkstra'' (st\<lparr>isAnimating := True\<rparr>))"
      unfolding finishRun_Completed_iff by blast
    moreover from that(2) obtain gA where "rA = Found vA pA gA"
      "stA = snd (animateAlgorithm vA pA gA ''A*'' (st\<lparr>isAnimating := True\<rparr>))"
      unfolding finishRun_Completed_iff by blast
    ultimately show ?thesis using len by (simp add: animate_stats)
  qed
  have runD: "runDijkstra st = Some (finishRun ''Dijkstra'' st rD)"
    by (simp add: runDijkstra_endpoints[OF assms(2,3)] rD(1))
  have runA: "runAStar st = Some (finishRun ''A*'' st rA)"
    by (simp add: runAStar_endpoints[OF assms(2,3)] rA(1))
  show ?thesis using rD(1) rA(1) runD runA sub len stats by blast
qed

theorem aStar_explores_no_more_than_dijkstra_witness:
  "stateInv initialState \<and> startNode initialState = Some (5, 15)
   \<and> endNode initialState = Some (44, 15)
   \<and> (\<exists>vD pD fD stD vA pA fA stA.
        runDijkstra initialState = Some (Completed vD pD fD stD) \<and>
        runAStar initialState = Some (Completed vA pA fA stA) \<and>
        set vA \<subseteq> set vD \<and> length vA \<le> length vD \<and>
        nodesExplored (stats stA) \<le> nodesExplored (stats stD))"
proof -
  note se = initialState_endpoints(1,2)
  from aStar_explores_no_more_than_dijkstra[OF stateInv_initialState se]
  obtain rD rA where
    r: "dijkstraSearch (grid initialState) (5, 15) = Some rD"
       "aStarSearch (grid initialState) (5, 15) (44, 15) = Some rA"
       "runDijkstra initialState = Some (finishRun ''Dijkstra'' initialState rD)"
       "runAStar initialState = Some (finishRun ''A*'' initialState rA)"
       "set (visitedOf rA) \<subseteq> set (visitedOf rD)"
       "length (visitedOf rA) \<le> length (visitedOf rD)"
       "\<forall>vD pD fD stD vA pA fA stA.
         finishRun ''Dijkstra'' initialState rD = Completed vD pD fD stD \<and>
         finishRun ''A*'' initialState rA = Completed vA pA fA stA \<longrightarrow>
           nodesExplored (stats stA) \<le> nodesExplored (stats stD)"
    by blast
  from initialState_runs_complete r(1,2) obtain vD pD gD vA pA gA where
    f: "rD = Found vD pD gD" "rA = Found vA pA gA"
    by auto
  let ?aD = "animateAlgorithm vD pD gD ''Dijkstra'' (initialState\<lparr>isAnimating := True\<rparr>)"
  let ?aA = "animateAlgorithm vA pA gA ''A*'' (initialState\<lparr>isAnimating := True\<rparr>)"
  have fin: "finishRun ''Dijkstra'' initialState rD = Completed vD pD (fst ?aD) (snd ?aD)"
    "finishRun ''A*'' initialState rA = Completed vA pA (fst ?aA) (snd ?aA)"
    by (simp_all add: f finishRun_Found)
  have "nodesExplored (stats (snd ?aA)) \<le> nodesExplored (stats (snd ?aD))"
    using r(7) fin by blast
  moreover have "set vA \<subseteq> set vD" "length vA \<le> length vD" using r(5,6) by (simp_all add: f)
  ultimately have "\<exists>vD pD fD stD vA pA fA stA.
        runDijkstra initialState = Some (Completed vD pD fD stD) \<and>
        runAStar initialState = Some (Completed vA pA fA stA) \<and>
        set vA \<subseteq> set vD \<and> length vA \<le> length vD \<and>
        nodesExplored (stats stA) \<le> nodesExplored (stats stD)"
    using r(3,4) fin by auto
  then show ?thesis using stateInv_initialState se by blast
qed

subsection \<open>Claim C3: Dijkstra removes a cell of minimal cost\<close>

text \<open>
  C3.  An iteration of Dijkstra's main loop is a call of \<open>dijkstraLoop\<close> with a working
  set \<open>unvisited\<close> that is not empty.  In every such call, whatever the working grid and
  the lists are, the loop takes one cell \<open>current\<close> out of the working set and goes on
  with the list \<open>rest\<close>, where: \<open>current\<close> is a member of the working set; its \<open>gScore\<close>
  is minimal among all members; \<open>rest\<close> is the working set without \<open>current\<close>; and what
  the call does is fixed by that cell.  If the \<open>gScore\<close> of \<open>current\<close> is infinite, the
  loop exits at once with the visited-order list as it was (the cell is neither
  appended to it nor are its neighbours relaxed), and every run whose search has come
  to this call ends as \<open>NoPathFound\<close>, leaving the state unchanged apart from the busy
  flag.  If it is finite and the cell is the end, the loop returns the path
  reconstructed from it.  Otherwise the loop relaxes the neighbours of \<open>current\<close>,
  appends \<open>current\<close> to the visited-order list and iterates on \<open>rest\<close>.
\<close>

theorem dijkstra_removes_minimum:
  assumes "unvisited \<noteq> []"
  shows "\<exists>current rest.
           sort_key (\<lambda>n. gScore (cell g n)) unvisited = current # rest
         \<and> current \<in> set unvisited
         \<and> (\<forall>n \<in> set unvisited. gScore (cell g current) \<le> gScore (cell g n))
         \<and> mset rest = mset unvisited - {#current#}
         \<and> dijkstraLoop g unvisited visitedInOrder =
             (if gScore (cell g current) = \<infinity> then Some (Exhausted visitedInOrder)
              else if isEnd (cell g current)
                then map_option (\<lambda>path. Found visitedInOrder path g) (reconstructPath g current)
              else dijkstraLoop
                     (foldl (relaxDijkstra current) g (getNeighbors (cell g current) g))
                     rest
                     (visitedInOrder @ [current]))
         \<and> (gScore (cell g current) = \<infinity> \<longrightarrow>
              (\<forall>st s e. startNode st = Some s \<and> endNode st = Some e
                        \<and> dijkstraSearch (grid st) s = dijkstraLoop g unvisited visitedInOrder
                 \<longrightarrow> runDijkstra st = Some (Failed NoPathFound (st\<lparr>isAnimating := False\<rparr>))))"
proof -
  let ?k = "\<lambda>n. gScore (cell g n)"
  obtain c rest where srt: "sort_key ?k unvisited = c # rest"
    using assms by (cases "sort_key ?k unvisited") (auto dest: arg_cong[where f = length])
  have hdtl: "hd (sort_key ?k unvisited) = c" "tl (sort_key ?k unvisited) = rest"
    by (simp_all add: srt)
  have mem: "c \<in> set unvisited"
    using sort_key_hd_min(1)[OF assms, of ?k] unfolding hdtl .
  have minimal: "\<forall>n \<in> set unvisited. gScore (cell g c) \<le> gScore (cell g n)"
    using sort_key_hd_min(2)[OF assms, of ?k] unfolding hdtl .
  have ms: "mset rest = mset unvisited - {#c#}"
    using sort_key_hd_tl[OF assms, of ?k] unfolding hdtl .
  have pos: "0 < length unvisited" using assms by simp
  have loop: "dijkstraLoop g unvisited visitedInOrder =
             (if gScore (cell g c) = \<infinity> then Some (Exhausted visitedInOrder)
              else if isEnd (cell g c)
                then map_option (\<lambda>path. Found visitedInOrder path g) (reconstructPath g c)
              else dijkstraLoop
                     (foldl (relaxDijkstra c) g (getNeighbors (cell g c) g))
                     rest
                     (visitedInOrder @ [c]))"
    by (subst dijkstraLoop.simps) (simp only: pos if_True Let_def hdtl)
  have run: "gScore (cell g c) = \<infinity> \<longrightarrow>
              (\<forall>st s e. startNode st = Some s \<and> endNode st = Some e
                        \<and> dijkstraSearch (grid st) s = dijkstraLoop g unvisited visitedInOrder
                 \<longrightarrow> runDijkstra st = Some (Failed NoPathFound (st\<lparr>isAnimating := False\<rparr>)))"
  proof (intro impI allI)
    fix st :: AppState and s e :: pos
    assume inf: "gScore (cell g c) = \<infinity>"
      and h: "startNode st = Some s \<and> endNode st = Some e
              \<and> dijkstraSearch (grid st) s = dijkstraLoop g unvisited visitedInOrder"
    have "dijkstraSearch (grid st) s = Some (Exhausted visitedInOrder)"
      using h loop inf by simp
    then show "runDijkstra st = Some (Failed NoPathFound (st\<lparr>isAnimating := False\<rparr>))"
      using h by (simp add: runDijkstra_def finishRun_def)
  qed
  show ?thesis
    apply (rule exI[of _ c])
    apply (rule exI[of _ rest])
    apply (intro conjI)
         apply (rule srt)
        apply (rule mem)
       apply (rule minimal)
      apply (rule ms)
     apply (rule loop)
    apply (rule run)
    done
qed

text \<open>
  The two iterations of the run on \<open>blockedExample\<close>, where walls shut the start (0, 0)
  into its corner.  The first takes the start out (cost 0, so the cell is processed and
  appended to the visited-order list; it has no neighbour to relax); the second finds
  only cells of infinite cost, and the run ends as \<open>NoPathFound\<close>.
\<close>

theorem dijkstra_removes_minimum_witness:
  "(let g = upd (upd (map (map (\<lambda>node. node\<lparr>isVisited := False, isPath := False,
                                            gScore := \<infinity>, fScore := \<infinity>,
                                            parent := None\<rparr>)) (grid blockedExample))
                     (0, 0) (\<lambda>n. n\<lparr>gScore := 0\<rparr>)) (0, 0) (\<lambda>n. n\<lparr>fScore := 0\<rparr>);
        sorted = sort_key (\<lambda>n. gScore (cell g n)) (flat g);
        sorted' = sort_key (\<lambda>n. gScore (cell g n)) (tl sorted)
    in flat g \<noteq> []
     \<and> hd sorted = (0, 0)
     \<and> gScore (cell g (0, 0)) = 0
     \<and> dijkstraSearch (grid blockedExample) (0, 0) = dijkstraLoop g (flat g) []
     \<and> dijkstraLoop g (flat g) [] = dijkstraLoop g (tl sorted) [(0, 0)]
     \<and> tl sorted \<noteq> []
     \<and> gScore (cell g (hd sorted')) = \<infinity>
     \<and> dijkstraLoop g (tl sorted) [(0, 0)] = Some (Exhausted [(0, 0)])
     \<and> runDijkstra blockedExample
         = Some (Failed NoPathFound (blockedExample\<lparr>isAnimating := False\<rparr>)))"
proof -
  note f = blockedExample_facts
  define g0 where "g0 = grid blockedExample"
  define g where "g = upd (upd (map (map (\<lambda>node. node\<lparr>isVisited := False, isPath := False,
                                            gScore := \<infinity>, fScore := \<infinity>,
                                            parent := None\<rparr>)) g0)
                     (0, 0) (\<lambda>n. n\<lparr>gScore := 0\<rparr>)) (0, 0) (\<lambda>n. n\<lparr>fScore := 0\<rparr>)"
  let ?k = "\<lambda>n. gScore (cell g n)"
  define U where "U = flat g"
  have wf0: "wfGrid g0" using f(1) by (simp add: stateInv_iff g0_def)
  have s: "inBounds (0, 0)" and e: "inBounds (44, 15)" and o: "inBounds (1, 0)"
    by (simp_all add: inBounds_def GRID_COLS_def GRID_ROWS_def)
  note ng = dijkstra_newGrid[OF wf0 s, folded g_def]
  have inv: "dijkstraInv g0 (0, 0) g (flat g) []"
    unfolding g_def by (rule dijkstraInv_init[OF wf0 s])
  then have sl: "sameLayout g0 g" by (simp add: dijkstraInv_def)
  have setU: "set U = {p. inBounds p}" unfolding U_def by (rule set_flat[OF ng(1)])
  have dU: "distinct U" unfolding U_def by (rule distinct_flat[OF ng(1)])
  have G0: "?k (0, 0) = 0" by (simp add: ng(2)[OF s])
  have Ginf: "?k p = \<infinity>" if "inBounds p" "p \<noteq> (0, 0)" for p
    using that by (simp add: ng(2)[OF that(1)])
  have search: "dijkstraSearch g0 (0, 0) = dijkstraLoop g U []"
    by (simp add: dijkstraSearch_def Let_def g_def U_def)
  have ne1: "U \<noteq> []" using setU s by auto
  \<comment> \<open>the first iteration\<close>
  from dijkstra_removes_minimum[OF ne1, of g "[]"] obtain c rest where
    srt: "sort_key ?k U = c # rest" and cU: "c \<in> set U"
    and cmin: "\<forall>n \<in> set U. ?k c \<le> ?k n"
    and ms: "mset rest = mset U - {#c#}"
    and loop1: "dijkstraLoop g U [] =
             (if ?k c = \<infinity> then Some (Exhausted [])
              else if isEnd (cell g c)
                then map_option (\<lambda>path. Found [] path g) (reconstructPath g c)
              else dijkstraLoop (foldl (relaxDijkstra c) g (getNeighbors (cell g c) g))
                     rest ([] @ [c]))"
    by blast
  have "?k c \<le> ?k (0, 0)" using cmin setU s by blast
  then have kc: "?k c = 0" by (simp add: G0)
  have c: "c = (0, 0)"
  proof (rule ccontr)
    assume "c \<noteq> (0, 0)"
    then have "?k c = \<infinity>" using Ginf cU setU by blast
    then show False using kc by simp
  qed
  have notEnd: "\<not> isEnd (cell g (0, 0))"
    using sameLayout_flags(3)[OF sl s] f(1,3) s by (simp add: stateInv_iff g0_def)
  have nb: "getNeighbors (cell g (0, 0)) g = []"
    using getNeighbors_sameLayout[OF sl s] f(4) by (simp add: g0_def)
  have step1: "dijkstraLoop g U [] = dijkstraLoop g rest [(0, 0)]"
    using loop1 notEnd nb G0 by (simp add: c)
  have hd1: "hd (sort_key ?k U) = (0, 0)" and tl1: "tl (sort_key ?k U) = rest"
    by (simp_all add: srt c)
  \<comment> \<open>the second iteration\<close>
  have setR: "set rest = set U - {(0, 0)}"
  proof -
    have "distinct (c # rest)" unfolding srt[symmetric] using dU by simp
    moreover have "set (c # rest) = set U" unfolding srt[symmetric] by simp
    ultimately show ?thesis by (auto simp: c)
  qed
  have ne2: "rest \<noteq> []" using setR setU o by auto
  from dijkstra_removes_minimum[OF ne2, of g "[(0, 0)]"] obtain c' rest' where
    srt': "sort_key ?k rest = c' # rest'" and cR: "c' \<in> set rest"
    and loop2: "dijkstraLoop g rest [(0, 0)] =
             (if ?k c' = \<infinity> then Some (Exhausted [(0, 0)])
              else if isEnd (cell g c')
                then map_option (\<lambda>path. Found [(0, 0)] path g) (reconstructPath g c')
              else dijkstraLoop (foldl (relaxDijkstra c') g (getNeighbors (cell g c') g))
                     rest' ([(0, 0)] @ [c']))"
    and run: "?k c' = \<infinity> \<longrightarrow>
              (\<forall>st s e. startNode st = Some s \<and> endNode st = Some e
                        \<and> dijkstraSearch (grid st) s = dijkstraLoop g rest [(0, 0)]
                 \<longrightarrow> runDijkstra st = Some (Failed NoPathFound (st\<lparr>isAnimating := False\<rparr>)))"
    by (elim exE conjE) (rule that)
  have inf: "?k c' = \<infinity>" using cR setR setU Ginf by blast
  have hd2: "hd (sort_key ?k rest) = c'" by (simp add: srt')
  have step2: "dijkstraLoop g rest [(0, 0)] = Some (Exhausted [(0, 0)])"
    using loop2 inf by simp
  have "dijkstraSearch (grid blockedExample) (0, 0) = dijkstraLoop g rest [(0, 0)]"
    using search step1 by (simp add: g0_def)
  then have runD: "runDijkstra blockedExample
         = Some (Failed NoPathFound (blockedExample\<lparr>isAnimating := False\<rparr>))"
    using run[rule_format, OF inf, of blockedExample "(0, 0)" "(44, 15)"] f(2,3) by simp
  show ?thesis
    unfolding Let_def g_def[unfolded g0_def, symmetric] U_def[symmetric]
    using ne1 hd1 G0 search[unfolded g0_def] step1 ne2 inf step2 runD
    by (simp add: tl1 hd2)
qed

subsection \<open>Claim C4: the reconstructed path\<close>

lemma found_path_shape:
  assumes wf: "wfGrid g0" and s: "inBounds s" and post: "searchPost g0 s e (Found v p g)"
  shows "reconstructPath g e = Some p \<and> followsParents g (rev p) \<and>
          p \<noteq> [] \<and> hd p = s \<and> last p = e \<and> s \<in> set p \<and> e \<in> set p \<and>
          (\<forall>i. Suc i < length p \<longrightarrow>
              p ! Suc i \<in> set (getNeighbors (cell g0 (p ! i)) g0) \<and>
              adjacent4 (p ! i) (p ! Suc i))"
proof -
  from post have pb: "pathBetween g0 s e p" and fp: "followsParents g (rev p)"
    by (simp_all add: searchPost_def)
  from pb have ne: "p \<noteq> []" and hd: "hd p = s" and last: "last p = e"
    and vp: "validPath g0 p"
    by (simp_all add: pathBetween_def)
  have "reconstructPath g (hd (rev p)) = Some (rev (rev p))"
    by (rule reconstructPath_follows[OF fp])
  then have rp: "reconstructPath g e = Some p" using ne last by (simp add: hd_rev)
  have mem: "s \<in> set p" "e \<in> set p" using ne hd last by (metis hd_in_set, metis last_in_set)
  have adj: "\<forall>i. Suc i < length p \<longrightarrow>
          p ! Suc i \<in> set (getNeighbors (cell g0 (p ! i)) g0) \<and>
          adjacent4 (p ! i) (p ! Suc i)"
    using validPath_adjacent[OF wf vp] hd s by simp
  show ?thesis using rp fp ne hd last mem adj by blast
qed

text \<open>
  C4.  For every completed run of either algorithm, from a state that satisfies the
  invariant: the path is the result of \<open>reconstructPath\<close> on the end cell of the
  working grid the search ended with; read backwards it starts at the end cell and
  goes from each cell to its parent until it reaches a cell without parent; its first
  element is the start cell, its last element is the end cell, both endpoints occur in
  it, and each element is followed by a neighbour of it, which is 4-adjacent to it.
\<close>

theorem reconstructed_path_shape:
  assumes "stateInv st"
  shows "(runDijkstra st = Some (Completed v p fs st') \<longrightarrow>
            (\<exists>s e g. startNode st = Some s \<and> endNode st = Some e \<and>
               dijkstraSearch (grid st) s = Some (Found v p g) \<and>
               reconstructPath g e = Some p \<and> followsParents g (rev p) \<and>
               p \<noteq> [] \<and> hd p = s \<and> last p = e \<and> s \<in> set p \<and> e \<in> set p \<and>
               (\<forall>i. Suc i < length p \<longrightarrow>
                   p ! Suc i \<in> set (getNeighbors (cell (grid st) (p ! i)) (grid st)) \<and>
                   adjacent4 (p ! i) (p ! Suc i))))
       \<and> (runAStar st = Some (Completed v p fs st') \<longrightarrow>
            (\<exists>s e g. startNode st = Some s \<and> endNode st = Some e \<and>
               aStarSearch (grid st) s e = Some (Found v p g) \<and>
               reconstructPath g e = Some p \<and> followsParents g (rev p) \<and>
               p \<noteq> [] \<and> hd p = s \<and> last p = e \<and> s \<in> set p \<and> e \<in> set p \<and>
               (\<forall>i. Suc i < length p \<longrightarrow>
                   p ! Suc i \<in> set (getNeighbors (cell (grid st) (p ! i)) (grid st)) \<and>
                   adjacent4 (p ! i) (p ! Suc i))))"
proof (intro conjI impI)
  assume run: "runDijkstra st = Some (Completed v p fs st')"
  from run_Completed_endpoints[OF disjI1, OF run] obtain s e where
    se: "startNode st = Some s" "endNode st = Some e"
    by blast
  note ep = stateInv_endpoints[OF assms se]
  from dijkstraSearch_correct[OF assms se] obtain r where
    r: "dijkstraSearch (grid st) s = Some r" "searchPost (grid st) s e r"
    by blast
  from run have "finishRun ''Dijkstra'' st r = Completed v p fs st'"
    by (simp add: runDijkstra_endpoints[OF se] r(1))
  then obtain g where g: "r = Found v p g" unfolding finishRun_Completed_iff by blast
  from found_path_shape[OF ep(1,2) r(2)[unfolded g]] se r(1) g
  show "\<exists>s e g. startNode st = Some s \<and> endNode st = Some e \<and>
               dijkstraSearch (grid st) s = Some (Found v p g) \<and>
               reconstructPath g e = Some p \<and> followsParents g (rev p) \<and>
               p \<noteq> [] \<and> hd p = s \<and> last p = e \<and> s \<in> set p \<and> e \<in> set p \<and>
               (\<forall>i. Suc i < length p \<longrightarrow>
                   p ! Suc i \<in> set (getNeighbors (cell (grid st) (p ! i)) (grid st)) \<and>
                   adjacent4 (p ! i) (p ! Suc i))"
    by blast
next
  assume run: "runAStar st = Some (Completed v p fs st')"
  from run_Completed_endpoints[OF disjI2, OF run] obtain s e where
    se: "startNode st = Some s" "endNode st = Some e"
    by blast
  note ep = stateInv_endpoints[OF assms se]
  from aStarSearch_correct[OF assms se] obtain r where
    r: "aStarSearch (grid st) s e = Some r" "searchPost (grid st) s e r"
    by blast
  from run have "finishRun ''A*'' st r = Completed v p fs st'"
    by (simp add: runAStar_endpoints[OF se] r(1))
  then obtain g where g: "r = Found v p g" unfolding finishRun_Completed_iff by blast
  from found_path_shape[OF ep(1,2) r(2)[unfolded g]] se r(1) g
  show "\<exists>s e g. startNode st = Some s \<and> endNode st = Some e \<and>
               aStarSearch (grid st) s e = Some (Found v p g) \<and>
               reconstructPath g e = Some p \<and> followsParents g (rev p) \<and>
               p \<noteq> [] \<and> hd p = s \<and> last p = e \<and> s \<in> set p \<and> e \<in> set p \<and>
               (\<forall>i. Suc i < length p \<longrightarrow>
                   p ! Suc i \<in> set (getNeighbors (cell (grid st) (p ! i)) (grid st)) \<and>
                   adjacent4 (p ! i) (p ! Suc i))"
    by blast
qed

theorem reconstructed_path_shape_witness:
  "stateInv initialState
   \<and> (\<exists>v p fs st' g.
        runDijkstra initialState = Some (Completed v p fs st') \<and>
        dijkstraSearch (grid initialState) (5, 15) = Some (Found v p g) \<and>
        reconstructPath g (44, 15) = Some p \<and> followsParents g (rev p) \<and>
        hd p = (5, 15) \<and> last p = (44, 15) \<and> (5, 15) \<in> set p \<and> (44, 15) \<in> set p \<and>
        Suc 0 < length p \<and>
        p ! Suc 0 \<in> set (getNeighbors (cell (grid initialState) (p ! 0)) (grid initialState)) \<and>
        adjacent4 (p ! 0) (p ! Suc 0))
   \<and> (\<exists>v p fs st' g.
        runAStar initialState = Some (Completed v p fs st') \<and>
        aStarSearch (grid initialState) (5, 15) (44, 15) = Some (Found v p g) \<and>
        reconstructPath g (44, 15) = Some p \<and> followsParents g (rev p) \<and>
        hd p = (5, 15) \<and> last p = (44, 15) \<and> (5, 15) \<in> set p \<and> (44, 15) \<in> set p \<and>
        Suc 0 < length p \<and>
        p ! Suc 0 \<in> set (getNeighbors (cell (grid initialState) (p ! 0)) (grid initialState)) \<and>
        adjacent4 (p ! 0) (p ! Suc 0))"
proof -
  note se = initialState_endpoints(1,2)
  from initialState_runs_complete obtain vD pD gD vA pA gA where
    f: "dijkstraSearch (grid initialState) (5, 15) = Some (Found vD pD gD)"
       "aStarSearch (grid initialState) (5, 15) (44, 15) = Some (Found vA pA gA)"
    by blast
  let ?aD = "animateAlgorithm vD pD gD ''Dijkstra'' (initialState\<lparr>isAnimating := True\<rparr>)"
  let ?aA = "animateAlgorithm vA pA gA ''A*'' (initialState\<lparr>isAnimating := True\<rparr>)"
  have runD: "runDijkstra initialState = Some (Completed vD pD (fst ?aD) (snd ?aD))"
    by (simp add: runDijkstra_endpoints[OF se] f(1) finishRun_Found)
  have runA: "runAStar initialState = Some (Completed vA pA (fst ?aA) (snd ?aA))"
    by (simp add: runAStar_endpoints[OF se] f(2) finishRun_Found)
  have long: "Suc 0 < length p" if "hd p = (5, 15)" "last p = (44, 15)" "p \<noteq> []" for p :: "pos list"
    using that by (cases p) (auto split: if_splits)
  from reconstructed_path_shape[OF stateInv_initialState, of vD pD "fst ?aD" "snd ?aD"] runD se
  obtain g where g: "dijkstraSearch (grid initialState) (5, 15) = Some (Found vD pD g)"
        "reconstructPath g (44, 15) = Some pD" "followsParents g (rev pD)"
        "pD \<noteq> []" "hd pD = (5, 15)" "last pD = (44, 15)"
        "(5, 15) \<in> set pD" "(44, 15) \<in> set pD"
        "\<forall>i. Suc i < length pD \<longrightarrow>
          pD ! Suc i \<in> set (getNeighbors (cell (grid initialState) (pD ! i)) (grid initialState)) \<and>
          adjacent4 (pD ! i) (pD ! Suc i)"
    by auto
  have D: "\<exists>v p fs st' g.
        runDijkstra initialState = Some (Completed v p fs st') \<and>
        dijkstraSearch (grid initialState) (5, 15) = Some (Found v p g) \<and>
        reconstructPath g (44, 15) = Some p \<and> followsParents g (rev p) \<and>
        hd p = (5, 15) \<and> last p = (44, 15) \<and> (5, 15) \<in> set p \<and> (44, 15) \<in> set p \<and>
        Suc 0 < length p \<and>
        p ! Suc 0 \<in> set (getNeighbors (cell (grid initialState) (p ! 0)) (grid initialState)) \<and>
        adjacent4 (p ! 0) (p ! Suc 0)"
    using runD g long[OF g(5,6,4)] by (intro exI[of _ vD] exI[of _ pD] exI[of _ "fst ?aD"] exI[of _ "snd ?aD"] exI[of _ g]) simp
  from reconstructed_path_shape[OF stateInv_initialState, of vA pA "fst ?aA" "snd ?aA"] runA se
  obtain g' where g': "aStarSearch (grid initialState) (5, 15) (44, 15) = Some (Found vA pA g')"
        "reconstructPath g' (44, 15) = Some pA" "followsParents g' (rev pA)"
        "pA \<noteq> []" "hd pA = (5, 15)" "last pA = (44, 15)"
        "(5, 15) \<in> set pA" "(44, 15) \<in> set pA"
        "\<forall>i. Suc i < length pA \<longrightarrow>
          pA ! Suc i \<in> set (getNeighbors (cell (grid initialState) (pA ! i)) (grid initialState)) \<and>
          adjacent4 (pA ! i) (pA ! Suc i)"
    by auto
  have A: "\<exists>v p fs st' g.
        runAStar initialState = Some (Completed v p fs st') \<and>
        aStarSearch (grid initialState) (5, 15) (44, 15) = Some (Found v p g) \<and>
        reconstructPath g (44, 15) = Some p \<and> followsParents g (rev p) \<and>
        hd p = (5, 15) \<and> last p = (44, 15) \<and> (5, 15) \<in> set p \<and> (44, 15) \<in> set p \<and>
        Suc 0 < length p \<and>
        p ! Suc 0 \<in> set (getNeighbors (cell (grid initialState) (p ! 0)) (grid initialState)) \<and>
        adjacent4 (p ! 0) (p ! Suc 0)"
    using runA g' long[OF g'(5,6,4)] by (intro exI[of _ vA] exI[of _ pA] exI[of _ "fst ?aA"] exI[of _ "snd ?aA"] exI[of _ g']) simp
  show ?thesis using stateInv_initialState D A by blast
qed

subsection \<open>Claim C5: the neighbours of a cell\<close>

text \<open>
  C5.  For every well-formed grid and every cell whose coordinates lie in the grid,
  \<open>getNeighbors\<close> returns exactly the list the specification words: the axis-aligned
  adjacent positions in the order up, down, left, right, restricted to those within
  the grid bounds that are not walls.  The list has at most four elements, and each
  of them is in bounds, not a wall and 4-adjacent to the cell.
\<close>

theorem getNeighbors_matches_spec:
  assumes "wfGrid g" "node_x n < GRID_COLS" "node_y n < GRID_ROWS"
  shows "map (\<lambda>q. (int (fst q), int (snd q))) (getNeighbors n g)
           = neighborsSpec g (int (node_x n), int (node_y n))
         \<and> length (getNeighbors n g) \<le> 4
         \<and> (\<forall>q \<in> set (getNeighbors n g). inBounds q \<and> \<not> isWall (cell g q)
               \<and> adjacent4 (node_x n, node_y n) q)"
proof -
  have ib: "inBounds (node_x n, node_y n)" using assms(2,3) by (simp add: inBounds_def)
  have co: "node_x (cell g (node_x n, node_y n)) = node_x n"
           "node_y (cell g (node_x n, node_y n)) = node_y n"
    using wfGrid_coords[OF assms(1) ib] by simp_all
  have same: "getNeighbors n g = getNeighbors (cell g (node_x n, node_y n)) g"
    by (simp add: getNeighbors_def co)
  have "\<forall>q \<in> set (getNeighbors n g). inBounds q \<and> \<not> isWall (cell g q)
               \<and> adjacent4 (node_x n, node_y n) q"
    unfolding same using getNeighbors_iff[OF assms(1) ib] by blast
  then show ?thesis
    using getNeighbors_eq_spec[OF assms(2,3)] getNeighbors_length by blast
qed

theorem getNeighbors_matches_spec_witness:
  "wfGrid initialGrid \<and> node_x (initialNode 0 29) < GRID_COLS \<and> node_y (initialNode 0 29) < GRID_ROWS
   \<and> getNeighbors (initialNode 0 29) initialGrid = [(0, 28), (1, 29)]
   \<and> neighborsSpec initialGrid (0, 29) = [(0, 28), (1, 29)]
   \<and> length (getNeighbors (initialNode 0 29) initialGrid) \<le> 4
   \<and> inBounds (0, 28) \<and> \<not> isWall (cell initialGrid (0, 28)) \<and> adjacent4 (0, 29) (0, 28)
   \<and> inBounds (1, 29) \<and> \<not> isWall (cell initialGrid (1, 29)) \<and> adjacent4 (0, 29) (1, 29)"
proof -
  have a: "node_x (initialNode 0 29) < GRID_COLS" "node_y (initialNode 0 29) < GRID_ROWS"
    by (simp_all add: initialNode_def GRID_COLS_def GRID_ROWS_def)
  have w1: "\<not> isWall (cell initialGrid (0, 28))" "\<not> isWall (cell initialGrid (1, 29))"
    by (simp_all add: cell_initialGrid inBounds_def GRID_COLS_def GRID_ROWS_def initialNode_def)
  have n: "getNeighbors (initialNode 0 29) initialGrid = [(0, 28), (1, 29)]"
    using w1 by (simp add: getNeighbors_def initialNode_def GRID_COLS_def GRID_ROWS_def)
  have s: "neighborsSpec initialGrid (0, 29) = [(0, 28), (1, 29)]"
    using w1 by (simp add: neighborsSpec_def GRID_COLS_def GRID_ROWS_def)
  show ?thesis
    using getNeighbors_matches_spec[OF wfGrid_initialGrid a] a n s wfGrid_initialGrid
    by (simp add: initialNode_def)
qed

subsection \<open>Claim C6: a run without both endpoints\<close>

text \<open>
  C6.  If the start reference or the end reference is null when \<open>runDijkstra\<close> or
  \<open>runAStar\<close> is invoked, the run fails with \<open>MissingEndpoints\<close> and leaves the whole
  state, hence every flag and all metadata of every cell of the live grid, as it was;
  no search is started and nothing is emitted.
\<close>

theorem missing_endpoints:
  assumes "startNode st = None \<or> endNode st = None"
  shows "runDijkstra st = Some (Failed MissingEndpoints st)
       \<and> runAStar st = Some (Failed MissingEndpoints st)"
  using assms
  by (cases "startNode st"; cases "endNode st") (simp_all add: runDijkstra_def runAStar_def)

theorem missing_endpoints_witness:
  "(startNode (clearAll initialState) = None \<or> endNode (clearAll initialState) = None)
   \<and> runDijkstra (clearAll initialState) = Some (Failed MissingEndpoints (clearAll initialState))
   \<and> runAStar (clearAll initialState) = Some (Failed MissingEndpoints (clearAll initialState))"
proof -
  have h: "startNode (clearAll initialState) = None \<or> endNode (clearAll initialState) = None"
    by (simp add: clearAll_def)
  show ?thesis using missing_endpoints[OF h] h by simp
qed

subsection \<open>Claim C7: a search that finds no path\<close>

text \<open>
  C7.  When the frontier is exhausted, the search loop exits without a path: Dijkstra's
  loop on an empty working set, or on one whose minimal \<open>gScore\<close> is infinite, and the
  A* loop on an empty open set all return \<open>Exhausted\<close>, which the run turns into
  \<open>NoPathFound\<close>.  In a state that satisfies the invariant, with start and end set,
  each run fails with \<open>NoPathFound\<close> exactly when no route leads from the start to the
  end.  A run that fails with \<open>NoPathFound\<close> emits no grid, and the state it leaves
  is the state it started from with the busy flag cleared: the live grid is unchanged.
\<close>

theorem no_path_found_leaves_grid:
  assumes "stateInv st" "startNode st = Some s" "endNode st = Some e"
  shows "dijkstraLoop g [] visited = Some (Exhausted visited)
       \<and> (unvisited \<noteq> [] \<and>
            gScore (cell g (hd (sort_key (\<lambda>n. gScore (cell g n)) unvisited))) = \<infinity> \<longrightarrow>
              dijkstraLoop g unvisited visited = Some (Exhausted visited))
       \<and> aStarLoop endRef g [] closedSet visited = Some (Exhausted visited)
       \<and> finishRun name st (Exhausted visited) = Failed NoPathFound (st\<lparr>isAnimating := False\<rparr>)
       \<and> (runDijkstra st = Some (Failed NoPathFound (st\<lparr>isAnimating := False\<rparr>))
            \<longleftrightarrow> (\<forall>route. \<not> pathBetween (grid st) s e route))
       \<and> (runAStar st = Some (Failed NoPathFound (st\<lparr>isAnimating := False\<rparr>))
            \<longleftrightarrow> (\<forall>route. \<not> pathBetween (grid st) s e route))
       \<and> (\<forall>st'. runDijkstra st = Some (Failed NoPathFound st') \<or>
                 runAStar st = Some (Failed NoPathFound st') \<longrightarrow>
              emitted (Failed NoPathFound st') = [] \<and>
              st' = st\<lparr>isAnimating := False\<rparr> \<and> grid st' = grid st)"
proof -
  have last: "\<forall>st'. runDijkstra st = Some (Failed NoPathFound st') \<or>
                 runAStar st = Some (Failed NoPathFound st') \<longrightarrow>
              emitted (Failed NoPathFound st') = [] \<and>
              st' = st\<lparr>isAnimating := False\<rparr> \<and> grid st' = grid st"
  proof (intro allI impI)
    fix st'
    assume "runDijkstra st = Some (Failed NoPathFound st') \<or>
            runAStar st = Some (Failed NoPathFound st')"
    from run_NoPathFound_state[OF this]
    show "emitted (Failed NoPathFound st') = [] \<and>
              st' = st\<lparr>isAnimating := False\<rparr> \<and> grid st' = grid st"
      by simp
  qed
  have inf: "unvisited \<noteq> [] \<and>
            gScore (cell g (hd (sort_key (\<lambda>n. gScore (cell g n)) unvisited))) = \<infinity> \<longrightarrow>
              dijkstraLoop g unvisited visited = Some (Exhausted visited)"
    using dijkstraLoop_infinite by blast
  show ?thesis
    using dijkstraLoop_empty[of g visited] inf aStarLoop_empty[of endRef g closedSet visited]
      finishRun_Exhausted[of name st visited] run_NoPathFound_iff[OF assms] last
    by (intro conjI) assumption+
qed

theorem no_path_found_leaves_grid_witness:
  "stateInv blockedExample \<and> startNode blockedExample = Some (0, 0)
   \<and> endNode blockedExample = Some (44, 15)
   \<and> getNeighbors (cell (grid blockedExample) (0, 0)) (grid blockedExample) = []
   \<and> runDijkstra blockedExample = Some (Failed NoPathFound (blockedExample\<lparr>isAnimating := False\<rparr>))
   \<and> runAStar blockedExample = Some (Failed NoPathFound (blockedExample\<lparr>isAnimating := False\<rparr>))
   \<and> emitted (Failed NoPathFound (blockedExample\<lparr>isAnimating := False\<rparr>)) = []
   \<and> grid (blockedExample\<lparr>isAnimating := False\<rparr>) = grid blockedExample
   \<and> gScore (cell initialGrid (hd (sort_key (\<lambda>n. gScore (cell initialGrid n)) [(5, 15)]))) = \<infinity>
   \<and> dijkstraLoop initialGrid [(5, 15)] [] = Some (Exhausted [])"
proof -
  note f = blockedExample_facts
  have noRoute: "\<forall>route. \<not> pathBetween (grid blockedExample) (0, 0) (44, 15) route"
    using isolated_no_route[OF f(4), of "(44, 15)"] by simp
  have inf: "gScore (cell initialGrid (hd (sort_key (\<lambda>n. gScore (cell initialGrid n)) [(5, 15)]))) = \<infinity>"
    by (simp add: cell_initialGrid inBounds_def GRID_COLS_def GRID_ROWS_def initialNode_def)
  have ne: "[(5, 15)] \<noteq> ([] :: pos list)" by simp
  note t = no_path_found_leaves_grid[OF f(1,2,3), of initialGrid "[]" "[(5, 15)]"]
  have runD: "runDijkstra blockedExample = Some (Failed NoPathFound (blockedExample\<lparr>isAnimating := False\<rparr>))"
    and runA: "runAStar blockedExample = Some (Failed NoPathFound (blockedExample\<lparr>isAnimating := False\<rparr>))"
    using t noRoute by blast+
  have loop: "dijkstraLoop initialGrid [(5, 15)] [] = Some (Exhausted [])"
    using t inf ne by blast
  show ?thesis using f runD runA inf loop by simp
qed

subsection \<open>Claim C8: the emitted grids\<close>

lemma replay_frames:
  fixes name :: string and state :: AppState and v p :: "pos list" and g :: Grid
  assumes sl: "sameLayout g0 g"
    and st: "\<forall>q. inBounds q \<longrightarrow> (isStart (cell g0 q) \<longleftrightarrow> q = s)"
    and en: "\<forall>q. inBounds q \<longrightarrow> (isEnd (cell g0 q) \<longleftrightarrow> q = e)"
    and vIB: "\<forall>r \<in> set v. inBounds r" and pIB: "\<forall>r \<in> set p. inBounds r"
    and q: "inBounds q"
  defines "fs \<equiv> fst (animateAlgorithm v p g name state)"
  shows "i < length v \<Longrightarrow>
           \<not> isPath (cell (fs ! i) q) \<and>
           (isVisited (cell (fs ! i) q) \<longleftrightarrow> q \<in> set (take (Suc i) v) \<and> q \<noteq> s \<and> q \<noteq> e)"
    and "j < length p \<Longrightarrow>
           (isVisited (cell (fs ! (length v + j)) q) \<longleftrightarrow> q \<in> set v \<and> q \<noteq> s \<and> q \<noteq> e) \<and>
           (isPath (cell (fs ! (length v + j)) q) \<longleftrightarrow> q \<in> set (take (Suc j) p) \<and> q \<noteq> s \<and> q \<noteq> e)"
proof -
  have wf: "wfGrid g" using sl by (rule sameLayout_wf)
  have fl: "isStart (cell g q) \<longleftrightarrow> q = s" "isEnd (cell g q) \<longleftrightarrow> q = e"
    "\<not> isVisited (cell g q)" "\<not> isPath (cell g q)"
    using sameLayout_flags[OF sl q] st en q by simp_all
  have tv: "\<forall>r \<in> set (take n v). inBounds r" for n using vIB by (meson in_set_takeD)
  have tp: "\<forall>r \<in> set (take n p). inBounds r" for n using pIB by (meson in_set_takeD)
  {
    assume i: "i < length v"
    have "fs ! i = foldl markVisited g (take (Suc i) v)"
      unfolding fs_def by (rule animate_frame_visited[OF i])
    then show "\<not> isPath (cell (fs ! i) q) \<and>
           (isVisited (cell (fs ! i) q) \<longleftrightarrow> q \<in> set (take (Suc i) v) \<and> q \<noteq> s \<and> q \<noteq> e)"
      using fl by (simp add: markVisited_fold(2)[OF wf tv])
  }
  {
    assume j: "j < length p"
    let ?g1 = "foldl markVisited g v"
    have wf1: "wfGrid ?g1" by (rule markVisited_fold(1)[OF wf vIB])
    have c1: "cell ?g1 q = (if q \<in> set v \<and> \<not> isStart (cell g q) \<and> \<not> isEnd (cell g q)
         then (cell g q)\<lparr>isVisited := True\<rparr> else cell g q)"
      by (rule markVisited_fold(2)[OF wf vIB])
    have fr: "fs ! (length v + j) = foldl markPath ?g1 (take (Suc j) p)"
      unfolding fs_def by (rule animate_frame_path[OF j])
    have v1: "isVisited (cell ?g1 q) \<longleftrightarrow> q \<in> set v \<and> q \<noteq> s \<and> q \<noteq> e"
      and s1: "isStart (cell ?g1 q) \<longleftrightarrow> q = s" and e1: "isEnd (cell ?g1 q) \<longleftrightarrow> q = e"
      and p1: "\<not> isPath (cell ?g1 q)"
      using fl by (simp_all add: c1)
    have cf: "cell (fs ! (length v + j)) q =
        (if q \<in> set (take (Suc j) p) \<and> \<not> isStart (cell ?g1 q) \<and> \<not> isEnd (cell ?g1 q)
         then (cell ?g1 q)\<lparr>isPath := True\<rparr> else cell ?g1 q)"
      unfolding fr by (rule markPath_fold(2)[OF wf1 tp])
    show "(isVisited (cell (fs ! (length v + j)) q) \<longleftrightarrow> q \<in> set v \<and> q \<noteq> s \<and> q \<noteq> e) \<and>
           (isPath (cell (fs ! (length v + j)) q) \<longleftrightarrow> q \<in> set (take (Suc j) p) \<and> q \<noteq> s \<and> q \<noteq> e)"
      unfolding cf using v1 s1 e1 p1 by simp
  }
qed

lemma completed_run_search:
  assumes inv: "stateInv st"
    and run: "runDijkstra st = Some (Completed v p fs st') \<or> runAStar st = Some (Completed v p fs st')"
  shows "\<exists>s e g name. startNode st = Some s \<and> endNode st = Some e \<and>
           searchPost (grid st) s e (Found v p g) \<and>
           fs = fst (animateAlgorithm v p g name (st\<lparr>isAnimating := True\<rparr>)) \<and>
           st' = snd (animateAlgorithm v p g name (st\<lparr>isAnimating := True\<rparr>))"
proof -
  from run_Completed_endpoints[OF run] obtain s e where
    se: "startNode st = Some s" "endNode st = Some e"
    by blast
  from run show ?thesis
  proof
    assume r: "runDijkstra st = Some (Completed v p fs st')"
    from dijkstraSearch_correct[OF inv se] obtain res where
      res: "dijkstraSearch (grid st) s = Some res" "searchPost (grid st) s e res"
      by blast
    from r have "finishRun ''Dijkstra'' st res = Completed v p fs st'"
      by (simp add: runDijkstra_endpoints[OF se] res(1))
    then show ?thesis using se res(2) unfolding finishRun_Completed_iff by blast
  next
    assume r: "runAStar st = Some (Completed v p fs st')"
    from aStarSearch_correct[OF inv se] obtain res where
      res: "aStarSearch (grid st) s e = Some res" "searchPost (grid st) s e res"
      by blast
    from r have "finishRun ''A*'' st res = Completed v p fs st'"
      by (simp add: runAStar_endpoints[OF se] res(1))
    then show ?thesis using se res(2) unfolding finishRun_Completed_iff by blast
  qed
qed

text \<open>
  C8.  For every completed run of either algorithm from a state that satisfies the
  invariant, with visited-order list \<open>v\<close>, path \<open>p\<close> and emitted grids \<open>fs\<close>: one grid
  is emitted per element of \<open>v\<close> and then one per element of \<open>p\<close>.  In every emitted
  grid the start cell and the end cell are neither visited nor path.  In the \<open>i\<close>-th
  grid of the first part exactly the first \<open>i + 1\<close> elements of \<open>v\<close> (start and end
  apart) are flagged visited and no cell at all is flagged path; in the \<open>j\<close>-th grid of
  the second part all of \<open>v\<close> is flagged visited and exactly the first \<open>j + 1\<close> elements
  of \<open>p\<close> (start and end apart) are flagged path.
\<close>

theorem replay_order_and_endpoints:
  assumes "stateInv st"
    and "runDijkstra st = Some (Completed v p fs st') \<or> runAStar st = Some (Completed v p fs st')"
  shows "\<exists>s e. startNode st = Some s \<and> endNode st = Some e \<and>
      length fs = length v + length p \<and>
      (\<forall>i. i < length fs \<longrightarrow>
          \<not> isVisited (cell (fs ! i) s) \<and> \<not> isPath (cell (fs ! i) s) \<and>
          \<not> isVisited (cell (fs ! i) e) \<and> \<not> isPath (cell (fs ! i) e)) \<and>
      (\<forall>i q. i < length v \<and> inBounds q \<longrightarrow>
          \<not> isPath (cell (fs ! i) q) \<and>
          (isVisited (cell (fs ! i) q) \<longleftrightarrow> q \<in> set (take (Suc i) v) \<and> q \<noteq> s \<and> q \<noteq> e)) \<and>
      (\<forall>j q. j < length p \<and> inBounds q \<longrightarrow>
          (isVisited (cell (fs ! (length v + j)) q) \<longleftrightarrow> q \<in> set v \<and> q \<noteq> s \<and> q \<noteq> e) \<and>
          (isPath (cell (fs ! (length v + j)) q) \<longleftrightarrow> q \<in> set (take (Suc j) p) \<and> q \<noteq> s \<and> q \<noteq> e))"
proof -
  from completed_run_search[OF assms] obtain s e g name where
    se: "startNode st = Some s" "endNode st = Some e"
    and post: "searchPost (grid st) s e (Found v p g)"
    and fs: "fs = fst (animateAlgorithm v p g name (st\<lparr>isAnimating := True\<rparr>))"
    by blast
  note ep = stateInv_endpoints[OF assms(1) se]
  from post have sl: "sameLayout (grid st) g" and pb: "pathBetween (grid st) s e p"
    and vIB: "\<forall>r \<in> set v. inBounds r"
    by (simp_all add: searchPost_def)
  have pIB: "\<forall>r \<in> set p. inBounds r"
    using pb ep(2) validPath_inBounds[OF ep(1), of p] by (simp add: pathBetween_def)
  note rf = replay_frames[OF sl ep(5,4) vIB pIB, where name = name
      and state = "st\<lparr>isAnimating := True\<rparr>", folded fs]
  have len: "length fs = length v + length p" by (simp add: fs animate_frames)
  have vis: "\<forall>i q. i < length v \<and> inBounds q \<longrightarrow>
          \<not> isPath (cell (fs ! i) q) \<and>
          (isVisited (cell (fs ! i) q) \<longleftrightarrow> q \<in> set (take (Suc i) v) \<and> q \<noteq> s \<and> q \<noteq> e)"
    using rf(1) by (intro allI impI) (elim conjE)
  have pth: "\<forall>j q. j < length p \<and> inBounds q \<longrightarrow>
          (isVisited (cell (fs ! (length v + j)) q) \<longleftrightarrow> q \<in> set v \<and> q \<noteq> s \<and> q \<noteq> e) \<and>
          (isPath (cell (fs ! (length v + j)) q) \<longleftrightarrow> q \<in> set (take (Suc j) p) \<and> q \<noteq> s \<and> q \<noteq> e)"
    using rf(2) by (intro allI impI) (elim conjE)
  have ends: "\<not> isVisited (cell (fs ! i) s) \<and> \<not> isPath (cell (fs ! i) s) \<and>
          \<not> isVisited (cell (fs ! i) e) \<and> \<not> isPath (cell (fs ! i) e)" if "i < length fs" for i
  proof (cases "i < length v")
    case True
    from rf(1)[OF ep(2) True] rf(1)[OF ep(3) True] show ?thesis by simp
  next
    case False
    define j where "j = i - length v"
    have j: "i = length v + j" "j < length p" using False that len by (simp_all add: j_def)
    from rf(2)[OF ep(2) j(2)] rf(2)[OF ep(3) j(2)] show ?thesis unfolding j(1) by simp
  qed
  have endsA: "\<forall>i. i < length fs \<longrightarrow>
          \<not> isVisited (cell (fs ! i) s) \<and> \<not> isPath (cell (fs ! i) s) \<and>
          \<not> isVisited (cell (fs ! i) e) \<and> \<not> isPath (cell (fs ! i) e)"
  proof (intro allI impI)
    fix i assume "i < length fs"
    then show "\<not> isVisited (cell (fs ! i) s) \<and> \<not> isPath (cell (fs ! i) s) \<and>
          \<not> isVisited (cell (fs ! i) e) \<and> \<not> isPath (cell (fs ! i) e)"
      by (rule ends)
  qed
  show ?thesis
  proof (rule exI[of _ s], rule exI[of _ e], intro conjI)
    show "startNode st = Some s" by (rule se(1))
    show "endNode st = Some e" by (rule se(2))
    show "length fs = length v + length p" by (rule len)
    show "\<forall>i. i < length fs \<longrightarrow>
          \<not> isVisited (cell (fs ! i) s) \<and> \<not> isPath (cell (fs ! i) s) \<and>
          \<not> isVisited (cell (fs ! i) e) \<and> \<not> isPath (cell (fs ! i) e)" by (rule endsA)
    show "\<forall>i q. i < length v \<and> inBounds q \<longrightarrow>
          \<not> isPath (cell (fs ! i) q) \<and>
          (isVisited (cell (fs ! i) q) \<longleftrightarrow> q \<in> set (take (Suc i) v) \<and> q \<noteq> s \<and> q \<noteq> e)" by (rule vis)
    show "\<forall>j q. j < length p \<and> inBounds q \<longrightarrow>
          (isVisited (cell (fs ! (length v + j)) q) \<longleftrightarrow> q \<in> set v \<and> q \<noteq> s \<and> q \<noteq> e) \<and>
          (isPath (cell (fs ! (length v + j)) q) \<longleftrightarrow> q \<in> set (take (Suc j) p) \<and> q \<noteq> s \<and> q \<noteq> e)" by (rule pth)
  qed
qed

theorem replay_order_and_endpoints_witness:
  "stateInv initialState
   \<and> (\<exists>v p fs st'.
        runDijkstra initialState = Some (Completed v p fs st') \<and>
        length fs = length v + length p \<and> 0 < length v \<and> 0 < length p \<and>
        inBounds (5, 15) \<and> inBounds (44, 15) \<and>
        \<not> isVisited (cell (fs ! 0) (5, 15)) \<and> \<not> isPath (cell (fs ! 0) (5, 15)) \<and>
        \<not> isVisited (cell (fs ! 0) (44, 15)) \<and> \<not> isPath (cell (fs ! 0) (44, 15)) \<and>
        \<not> isVisited (cell (fs ! (length v + 0)) (5, 15)) \<and>
        \<not> isPath (cell (fs ! (length v + 0)) (5, 15)))"
proof -
  note se = initialState_endpoints(1,2)
  note ep = stateInv_endpoints[OF stateInv_initialState se]
  from dijkstraSearch_correct[OF stateInv_initialState se] obtain r where
    r: "dijkstraSearch (grid initialState) (5, 15) = Some r"
       "searchPost (grid initialState) (5, 15) (44, 15) r"
       "\<forall>q. shortRoute (grid initialState) (5, 15) r q \<longrightarrow> q \<in> set (visitedOf r)"
    by blast
  from searchPost_route_Found[OF r(2) initialState_route] obtain v p g where
    f: "r = Found v p g"
    by blast
  let ?a = "animateAlgorithm v p g ''Dijkstra'' (initialState\<lparr>isAnimating := True\<rparr>)"
  have run: "runDijkstra initialState = Some (Completed v p (fst ?a) (snd ?a))"
    by (simp add: runDijkstra_endpoints[OF se] r(1) f finishRun_Found)
  have pb: "pathBetween (grid initialState) (5, 15) (44, 15) p"
    using r(2) by (simp add: f searchPost_def)
  then have lp: "Suc 0 < length p"
    unfolding pathBetween_def by (cases p) (auto split: if_splits)
  have "pathBetween (grid initialState) (5, 15) (5, 15) [(5, 15)]"
    by (simp add: pathBetween_def)
  then have "shortRoute (grid initialState) (5, 15) r (5, 15)"
    unfolding shortRoute_def f using lp by (intro exI[of _ "[(5, 15)]"]) simp
  then have "(5, 15) \<in> set v" using r(3) f by auto
  then have lv: "0 < length v" by (cases v) auto
  from replay_order_and_endpoints[OF stateInv_initialState disjI1, OF run] se
  have c: "length (fst ?a) = length v + length p"
    "\<forall>i. i < length (fst ?a) \<longrightarrow>
          \<not> isVisited (cell (fst ?a ! i) (5, 15)) \<and> \<not> isPath (cell (fst ?a ! i) (5, 15)) \<and>
          \<not> isVisited (cell (fst ?a ! i) (44, 15)) \<and> \<not> isPath (cell (fst ?a ! i) (44, 15))"
    by auto
  have lp0: "0 < length p" using lp by linarith
  have i0: "0 < length (fst ?a)" "length v + 0 < length (fst ?a)" using c(1) lv lp0 by linarith+
  from c(2)[rule_format, OF i0(1)] c(2)[rule_format, OF i0(2)] c(1) lv lp0 run ep(2,3)
  have "\<exists>v p fs st'.
        runDijkstra initialState = Some (Completed v p fs st') \<and>
        length fs = length v + length p \<and> 0 < length v \<and> 0 < length p \<and>
        inBounds (5, 15) \<and> inBounds (44, 15) \<and>
        \<not> isVisited (cell (fs ! 0) (5, 15)) \<and> \<not> isPath (cell (fs ! 0) (5, 15)) \<and>
        \<not> isVisited (cell (fs ! 0) (44, 15)) \<and> \<not> isPath (cell (fs ! 0) (44, 15)) \<and>
        \<not> isVisited (cell (fs ! (length v + 0)) (5, 15)) \<and>
        \<not> isPath (cell (fs ! (length v + 0)) (5, 15))"
    by (intro exI[of _ v] exI[of _ p] exI[of _ "fst ?a"] exI[of _ "snd ?a"]) simp
  then show ?thesis using stateInv_initialState by blast
qed

subsection \<open>Claim C9: editing keeps walls off the start and the end\<close>

text \<open>
  C9.  Every edit operation (a click with any tool, \<open>resetGrid\<close>, \<open>clearAll\<close>) preserves
  the state invariant, and with it the property that no cell is at once a wall and a
  start or end cell.  A click with the wall tool on the current start or end cell
  changes nothing: the state stays as it is, and that cell's wall flag is false.  A
  click with the start (end) tool makes the clicked cell the start (end) and leaves
  its wall flag false.
\<close>

theorem edits_keep_walls_off_endpoints:
  assumes "stateInv st"
  shows "stateInv (handleCanvasClick st cx cy) \<and> noWallOnEndpoints (grid (handleCanvasClick st cx cy))
       \<and> stateInv (resetGrid st) \<and> noWallOnEndpoints (grid (resetGrid st))
       \<and> stateInv (clearAll st) \<and> noWallOnEndpoints (grid (clearAll st))
       \<and> (selectedTool st = ToolWall \<and> 0 \<le> cx \<and> 0 \<le> cy \<and>
            (startNode st = Some (nat cx, nat cy) \<or> endNode st = Some (nat cx, nat cy)) \<longrightarrow>
              handleCanvasClick st cx cy = st \<and> \<not> isWall (cell (grid st) (nat cx, nat cy)))
       \<and> (\<not> isAnimating st \<and> selectedTool st = ToolStart \<and>
            0 \<le> cx \<and> cx < int GRID_COLS \<and> 0 \<le> cy \<and> cy < int GRID_ROWS \<longrightarrow>
              startNode (handleCanvasClick st cx cy) = Some (nat cx, nat cy) \<and>
              isStart (cell (grid (handleCanvasClick st cx cy)) (nat cx, nat cy)) \<and>
              \<not> isWall (cell (grid (handleCanvasClick st cx cy)) (nat cx, nat cy)))
       \<and> (\<not> isAnimating st \<and> selectedTool st = ToolEnd \<and>
            0 \<le> cx \<and> cx < int GRID_COLS \<and> 0 \<le> cy \<and> cy < int GRID_ROWS \<longrightarrow>
              endNode (handleCanvasClick st cx cy) = Some (nat cx, nat cy) \<and>
              isEnd (cell (grid (handleCanvasClick st cx cy)) (nat cx, nat cy)) \<and>
              \<not> isWall (cell (grid (handleCanvasClick st cx cy)) (nat cx, nat cy)))"
proof -
  have free: "noWallOnEndpoints (grid t)" if "stateInv t" for t
  proof -
    have wf: "wfGrid (grid t)" using that by (simp add: stateInv_iff)
    show ?thesis
      unfolding noWallOnEndpoints_def set_flat[OF wf] using that[unfolded stateInv_iff] by blast
  qed
  have i1: "stateInv (handleCanvasClick st cx cy)" by (rule stateInv_handleCanvasClick[OF assms])
  have i2: "stateInv (resetGrid st)" by (rule stateInv_resetGrid[OF assms])
  have i3: "stateInv (clearAll st)"
    using assms by (intro stateInv_clearAll) (simp add: stateInv_iff)
  have wall: "handleCanvasClick st cx cy = st \<and> \<not> isWall (cell (grid st) (nat cx, nat cy))"
    if tool: "selectedTool st = ToolWall" and nn: "0 \<le> cx" "0 \<le> cy"
      and on: "startNode st = Some (nat cx, nat cy) \<or> endNode st = Some (nat cx, nat cy)"
  proof -
    have c: "inBounds (nat cx, nat cy)" using on assms[unfolded stateInv_iff] by blast
    then have rng: "\<not> (cx < 0 \<or> cx \<ge> int GRID_COLS \<or> cy < 0 \<or> cy \<ge> int GRID_ROWS)"
      using nn unfolding inBounds_def fst_conv snd_conv by linarith
    have nw: "\<not> isWall (cell (grid st) (nat cx, nat cy))"
      using on c assms[unfolded stateInv_iff] by blast
    have "handleCanvasClick st cx cy = st"
      using rng tool click_wall(2)[OF assms c on]
      by (simp add: handleCanvasClick_def map_map_ident Let_def)
    with nw show ?thesis by simp
  qed
  have start: "startNode (handleCanvasClick st cx cy) = Some (nat cx, nat cy) \<and>
              isStart (cell (grid (handleCanvasClick st cx cy)) (nat cx, nat cy)) \<and>
              \<not> isWall (cell (grid (handleCanvasClick st cx cy)) (nat cx, nat cy))"
    if "\<not> isAnimating st" "selectedTool st = ToolStart"
      "0 \<le> cx" "cx < int GRID_COLS" "0 \<le> cy" "cy < int GRID_ROWS"
  proof -
    have rng: "\<not> (cx < 0 \<or> cx \<ge> int GRID_COLS \<or> cy < 0 \<or> cy \<ge> int GRID_ROWS)"
      using that by linarith
    have c: "inBounds (nat cx, nat cy)" by (rule inBounds_click[OF rng])
    show ?thesis
      using that(1,2) rng click_start(2,3)[OF assms c]
      by (simp add: handleCanvasClick_def map_map_ident Let_def)
  qed
  have "end": "endNode (handleCanvasClick st cx cy) = Some (nat cx, nat cy) \<and>
              isEnd (cell (grid (handleCanvasClick st cx cy)) (nat cx, nat cy)) \<and>
              \<not> isWall (cell (grid (handleCanvasClick st cx cy)) (nat cx, nat cy))"
    if "\<not> isAnimating st" "selectedTool st = ToolEnd"
      "0 \<le> cx" "cx < int GRID_COLS" "0 \<le> cy" "cy < int GRID_ROWS"
  proof -
    have rng: "\<not> (cx < 0 \<or> cx \<ge> int GRID_COLS \<or> cy < 0 \<or> cy \<ge> int GRID_ROWS)"
      using that by linarith
    have c: "inBounds (nat cx, nat cy)" by (rule inBounds_click[OF rng])
    show ?thesis
      using that(1,2) rng click_end(2,3)[OF assms c]
      by (simp add: handleCanvasClick_def map_map_ident Let_def)
  qed
  show ?thesis
    using i1 i2 i3 free[OF i1] free[OF i2] free[OF i3] wall start "end" by blast
qed

theorem edits_keep_walls_off_endpoints_witness:
  "stateInv (withTool ToolWall initialState)
   \<and> startNode (withTool ToolWall initialState) = Some (nat 5, nat 15)
   \<and> handleCanvasClick (withTool ToolWall initialState) 5 15 = withTool ToolWall initialState
   \<and> \<not> isWall (cell (grid (withTool ToolWall initialState)) (nat 5, nat 15))
   \<and> isWall (cell (grid (handleCanvasClick (withTool ToolWall initialState) 7 3)) (7, 3))
   \<and> stateInv (handleCanvasClick (withTool ToolWall initialState) 7 3)
   \<and> noWallOnEndpoints (grid (handleCanvasClick (withTool ToolWall initialState) 7 3))
   \<and> startNode (handleCanvasClick
         (withTool ToolStart (handleCanvasClick (withTool ToolWall initialState) 7 3)) 7 3) = Some (7, 3)
   \<and> \<not> isWall (cell (grid (handleCanvasClick
         (withTool ToolStart (handleCanvasClick (withTool ToolWall initialState) 7 3)) 7 3)) (7, 3))
   \<and> endNode (handleCanvasClick
         (withTool ToolEnd (handleCanvasClick (withTool ToolWall initialState) 7 3)) 7 3) = Some (7, 3)
   \<and> \<not> isWall (cell (grid (handleCanvasClick
         (withTool ToolEnd (handleCanvasClick (withTool ToolWall initialState) 7 3)) 7 3)) (7, 3))
   \<and> stateInv (resetGrid initialState) \<and> stateInv (clearAll initialState)"
proof -
  let ?W0 = "withTool ToolWall initialState"
  let ?W1 = "handleCanvasClick ?W0 7 3"
  have tool: "stateInv (withTool t st) = stateInv st" for t st
    by (simp add: stateInv_def withTool_def)
  have i0: "stateInv ?W0" by (simp add: tool stateInv_initialState)
  have s0: "startNode ?W0 = Some (nat 5, nat 15)" "selectedTool ?W0 = ToolWall"
    by (simp_all add: withTool_def initialState_def)
  have ib: "inBounds (7, 3)" by (simp add: inBounds_def GRID_COLS_def GRID_ROWS_def)
  have w1: "isWall (cell (grid ?W1) (7, 3))"
    by (simp add: handleCanvasClick_def withTool_def initialState_def map_map_ident
        cell_upd[OF wfGrid_initialGrid ib] cell_initialGrid[OF ib] initialNode_def
        GRID_COLS_def GRID_ROWS_def)
  have a1: "\<not> isAnimating ?W1"
    by (simp add: handleCanvasClick_def withTool_def initialState_def Let_def)
  have i1: "stateInv ?W1" using edits_keep_walls_off_endpoints[OF i0, of 7 3] by blast
  have i1s: "stateInv (withTool ToolStart ?W1)" "stateInv (withTool ToolEnd ?W1)"
    using i1 by (simp_all add: tool)
  have t1: "selectedTool (withTool ToolStart ?W1) = ToolStart"
       "selectedTool (withTool ToolEnd ?W1) = ToolEnd"
       "\<not> isAnimating (withTool ToolStart ?W1)" "\<not> isAnimating (withTool ToolEnd ?W1)"
    using a1 by (simp_all add: withTool_def)
  have rng: "(0::int) \<le> 7" "(7::int) < int GRID_COLS" "(0::int) \<le> 3" "(3::int) < int GRID_ROWS"
    by (simp_all add: GRID_COLS_def GRID_ROWS_def)
  show ?thesis
    using edits_keep_walls_off_endpoints[OF i0, of 5 15]
      edits_keep_walls_off_endpoints[OF i0, of 7 3]
      edits_keep_walls_off_endpoints[OF i1s(1), of 7 3]
      edits_keep_walls_off_endpoints[OF i1s(2), of 7 3]
      edits_keep_walls_off_endpoints[OF stateInv_initialState, of 0 0]
      i0 s0 w1 t1 rng
    by simp
qed

subsection \<open>Claim C10: start and end on the same cell\<close>

text \<open>
  C10.  In a state that satisfies the invariant in which \<open>startNode\<close> and \<open>endNode\<close>
  refer to the same cell (so that cell carries both the start and the end flag),
  \<open>runDijkstra\<close> and \<open>runAStar\<close> both complete at once: the visited-order list is
  empty, the path is exactly that one cell, a single grid is emitted, and the
  statistics report \<open>nodesExplored = 0\<close> and \<open>pathLength = 1\<close>.
\<close>

theorem same_cell_run:
  assumes "stateInv st" "startNode st = Some p" "endNode st = Some p"
  shows "\<exists>gD gA stD stA.
      runDijkstra st = Some (Completed [] [p] [gD] stD) \<and>
      runAStar st = Some (Completed [] [p] [gA] stA) \<and>
      nodesExplored (stats stD) = 0 \<and> pathLength (stats stD) = 1 \<and>
      nodesExplored (stats stA) = 0 \<and> pathLength (stats stA) = 1 \<and>
      isStart (cell (grid st) p) \<and> isEnd (cell (grid st) p)"
proof -
  note ep = stateInv_endpoints[OF assms]
  have fl: "isStart (cell (grid st) p)" "isEnd (cell (grid st) p)" using ep(2,4,5) by blast+
  from dijkstraSearch_same_cell[OF ep(1,2) fl(2)] obtain gD where
    gD: "dijkstraSearch (grid st) p = Some (Found [] [p] gD)" "sameLayout (grid st) gD"
    by blast
  from aStarSearch_same_cell[OF ep(1,2) fl(2)] obtain gA where
    gA: "aStarSearch (grid st) p p = Some (Found [] [p] gA)" "sameLayout (grid st) gA"
    by blast
  let ?aD = "animateAlgorithm [] [p] gD ''Dijkstra'' (st\<lparr>isAnimating := True\<rparr>)"
  let ?aA = "animateAlgorithm [] [p] gA ''A*'' (st\<lparr>isAnimating := True\<rparr>)"
  have runD: "runDijkstra st = Some (Completed [] [p] [gD] (snd ?aD))"
    by (simp add: runDijkstra_endpoints[OF assms(2,3)] gD(1) finishRun_Found
        animate_single_start(1)[OF gD(2) ep(2) fl(1)])
  have runA: "runAStar st = Some (Completed [] [p] [gA] (snd ?aA))"
    by (simp add: runAStar_endpoints[OF assms(2,3)] gA(1) finishRun_Found
        animate_single_start(1)[OF gA(2) ep(2) fl(1)])
  have "nodesExplored (stats (snd ?aD)) = 0" "pathLength (stats (snd ?aD)) = 1"
       "nodesExplored (stats (snd ?aA)) = 0" "pathLength (stats (snd ?aA)) = 1"
    by (simp_all add: animate_stats)
  with runD runA fl show ?thesis by blast
qed

theorem same_cell_run_witness:
  "stateInv sameCellExample \<and> startNode sameCellExample = Some (5, 15)
   \<and> endNode sameCellExample = Some (5, 15)
   \<and> (\<exists>gD gA stD stA.
        runDijkstra sameCellExample = Some (Completed [] [(5, 15)] [gD] stD) \<and>
        runAStar sameCellExample = Some (Completed [] [(5, 15)] [gA] stA) \<and>
        nodesExplored (stats stD) = 0 \<and> pathLength (stats stD) = 1 \<and>
        nodesExplored (stats stA) = 0 \<and> pathLength (stats stA) = 1)"
  using same_cell_run[OF sameCellExample_facts] sameCellExample_facts by blast

end
